theory Spec2Isabelle
  imports Main "HOL-Library.Word"
begin

unbundle bit_operations_syntax

section \<open>The status vocabulary (enum Status)\<close>

text \<open>
  The TypeScript numeric enum \<^verbatim>\<open>Status\<close> is the same in both versions of the client.
  Its members are the constructors of a datatype; \<open>Status_value\<close> gives the number the
  enum assigns to a member and \<open>Status_reverse\<close> is the reverse mapping \<^verbatim>\<open>Status[n]\<close>
  that a numeric enum carries at run time.
\<close>

datatype Status =
    Continue
  | SwitchingProtocols
  | Processing
  | EarlyHints
  | OK
  | Created
  | Accepted
  | NonAuthoritativeInformation
  | NoContent
  | ResetContent
  | PartialContent
  | MultiStatus
  | AlreadyReported
  | IMUsed
  | MultipleChoices
  | MovedPermanently
  | Found
  | SeeOther
  | NotModified
  | UseProxy
  | TemporaryRedirect
  | PermanentRedirect
  | BadRequest
  | Unauthorized
  | PaymentRequired
  | Forbidden
  | NotFound
  | MethodNotAllowed
  | NotAcceptable
  | ProxyAuthenticationRequired
  | RequestTimeout
  | Conflict
  | Gone
  | LengthRequired
  | PreconditionFailed
  | PayloadTooLarge
  | URITooLong
  | UnsupportedMediaType
  | RangeNotSatisfiable
  | ExpectationFailed
  | ImATeapot
  | MisdirectedRequest
  | UnprocessableEntity
  | Locked
  | FailedDependency
  | TooEarly
  | UpgradeRequired
  | PreconditionRequired
  | TooManyRequests
  | RequestHeaderFieldsTooLarge
  | UnavailableForLegalReasons
  | InternalServerError
  | NotImplemented
  | BadGateway
  | ServiceUnavailable
  | GatewayTimeout
  | HTTPVersionNotSupported
  | VariantAlsoNegotiates
  | InsufficientStorage
  | LoopDetected
  | NotExtended
  | NetworkAuthenticationRequired

fun Status_value :: "Status \<Rightarrow> int" where
  "Status_value Continue = 100"
| "Status_value SwitchingProtocols = 101"
| "Status_value Processing = 102"
| "Status_value EarlyHints = 103"
| "Status_value OK = 200"
| "Status_value Created = 201"
| "Status_value Accepted = 202"
| "Status_value NonAuthoritativeInformation = 203"
| "Status_value NoContent = 204"
| "Status_value ResetContent = 205"
| "Status_value PartialContent = 206"
| "Status_value MultiStatus = 207"
| "Status_value AlreadyReported = 208"
| "Status_value IMUsed = 226"
| "Status_value MultipleChoices = 300"
| "Status_value MovedPermanently = 301"
| "Status_value Found = 302"
| "Status_value SeeOther = 303"
| "Status_value NotModified = 304"
| "Status_value UseProxy = 305"
| "Status_value TemporaryRedirect = 307"
| "Status_value PermanentRedirect = 308"
| "Status_value BadRequest = 400"
| "Status_value Unauthorized = 401"
| "Status_value PaymentRequired = 402"
| "Status_value Forbidden = 403"
| "Status_value NotFound = 404"
| "Status_value MethodNotAllowed = 405"
| "Status_value NotAcceptable = 406"
| "Status_value ProxyAuthenticationRequired = 407"
| "Status_value RequestTimeout = 408"
| "Status_value Conflict = 409"
| "Status_value Gone = 410"
| "Status_value LengthRequired = 411"
| "Status_value PreconditionFailed = 412"
| "Status_value PayloadTooLarge = 413"
| "Status_value URITooLong = 414"
| "Status_value UnsupportedMediaType = 415"
| "Status_value RangeNotSatisfiable = 416"
| "Status_value ExpectationFailed = 417"
| "Status_value ImATeapot = 418"
| "Status_value MisdirectedRequest = 421"
| "Status_value UnprocessableEntity = 422"
| "Status_value Locked = 423"
| "Status_value FailedDependency = 424"
| "Status_value TooEarly = 425"
| "Status_value UpgradeRequired = 426"
| "Status_value PreconditionRequired = 428"
| "Status_value TooManyRequests = 429"
| "Status_value RequestHeaderFieldsTooLarge = 431"
| "Status_value UnavailableForLegalReasons = 451"
| "Status_value InternalServerError = 500"
| "Status_value NotImplemented = 501"
| "Status_value BadGateway = 502"
| "Status_value ServiceUnavailable = 503"
| "Status_value GatewayTimeout = 504"
| "Status_value HTTPVersionNotSupported = 505"
| "Status_value VariantAlsoNegotiates = 506"
| "Status_value InsufficientStorage = 507"
| "Status_value LoopDetected = 508"
| "Status_value NotExtended = 510"
| "Status_value NetworkAuthenticationRequired = 511"

definition Status_reverse :: "int \<Rightarrow> Status option" where
  "Status_reverse n =
    (if n = 100 then Some Continue
     else if n = 101 then Some SwitchingProtocols
     else if n = 102 then Some Processing
     else if n = 103 then Some EarlyHints
     else if n = 200 then Some OK
     else if n = 201 then Some Created
     else if n = 202 then Some Accepted
     else if n = 203 then Some NonAuthoritativeInformation
     else if n = 204 then Some NoContent
     else if n = 205 then Some ResetContent
     else if n = 206 then Some PartialContent
     else if n = 207 then Some MultiStatus
     else if n = 208 then Some AlreadyReported
     else if n = 226 then Some IMUsed
     else if n = 300 then Some MultipleChoices
     else if n = 301 then Some MovedPermanently
     else if n = 302 then Some Found
     else if n = 303 then Some SeeOther
     else if n = 304 then Some NotModified
     else if n = 305 then Some UseProxy
     else if n = 307 then Some TemporaryRedirect
     else if n = 308 then Some PermanentRedirect
     else if n = 400 then Some BadRequest
     else if n = 401 then Some Unauthorized
     else if n = 402 then Some PaymentRequired
     else if n = 403 then Some Forbidden
     else if n = 404 then Some NotFound
     else if n = 405 then Some MethodNotAllowed
     else if n = 406 then Some NotAcceptable
     else if n = 407 then Some ProxyAuthenticationRequired
     else if n = 408 then Some RequestTimeout
     else if n = 409 then Some Conflict
     else if n = 410 then Some Gone
     else if n = 411 then Some LengthRequired
     else if n = 412 then Some PreconditionFailed
     else if n = 413 then Some PayloadTooLarge
     else if n = 414 then Some URITooLong
     else if n = 415 then Some UnsupportedMediaType
     else if n = 416 then Some RangeNotSatisfiable
     else if n = 417 then Some ExpectationFailed
     else if n = 418 then Some ImATeapot
     else if n = 421 then Some MisdirectedRequest
     else if n = 422 then Some UnprocessableEntity
     else if n = 423 then Some Locked
     else if n = 424 then Some FailedDependency
     else if n = 425 then Some TooEarly
     else if n = 426 then Some UpgradeRequired
     else if n = 428 then Some PreconditionRequired
     else if n = 429 then Some TooManyRequests
     else if n = 431 then Some RequestHeaderFieldsTooLarge
     else if n = 451 then Some UnavailableForLegalReasons
     else if n = 500 then Some InternalServerError
     else if n = 501 then Some NotImplemented
     else if n = 502 then Some BadGateway
     else if n = 503 then Some ServiceUnavailable
     else if n = 504 then Some GatewayTimeout
     else if n = 505 then Some HTTPVersionNotSupported
     else if n = 506 then Some VariantAlsoNegotiates
     else if n = 507 then Some InsufficientStorage
     else if n = 508 then Some LoopDetected
     else if n = 510 then Some NotExtended
     else if n = 511 then Some NetworkAuthenticationRequired
     else None)"

definition Status_class :: "Status \<Rightarrow> int" where
  "Status_class s = Status_value s div 100"

section \<open>Buffers and strings\<close>

text \<open>
  A Node \<^verbatim>\<open>Buffer\<close> is a list of bytes. A JavaScript string is a list of UTF-16 code
  units; every list is a string, also one with an unpaired surrogate. \<open>ascii\<close> writes a
  string literal of the sources as code units.
\<close>

type_synonym byte = "8 word"
type_synonym Buffer = "byte list"
type_synonym jsstring = "16 word list"

definition ascii :: "string \<Rightarrow> jsstring" where
  "ascii s = map (\<lambda>c. of_nat (of_char c)) s"

subsection \<open>UTF-8 (\<^verbatim>\<open>Buffer.from(s, "utf8")\<close> and \<^verbatim>\<open>buf.toString("utf8")\<close>)\<close>

definition is_high_surrogate :: "nat \<Rightarrow> bool" where
  "is_high_surrogate u \<longleftrightarrow> 0xD800 \<le> u \<and> u \<le> 0xDBFF"

definition is_low_surrogate :: "nat \<Rightarrow> bool" where
  "is_low_surrogate u \<longleftrightarrow> 0xDC00 \<le> u \<and> u \<le> 0xDFFF"

definition is_surrogate :: "nat \<Rightarrow> bool" where
  "is_surrogate u \<longleftrightarrow> 0xD800 \<le> u \<and> u \<le> 0xDFFF"

text \<open>
  The code points a string is encoded from: a high surrogate followed by a low surrogate
  is one supplementary code point, any other surrogate is replaced by U+FFFD.
\<close>

fun code_points_of_utf16 :: "nat list \<Rightarrow> nat list" where
  "code_points_of_utf16 [] = []"
| "code_points_of_utf16 [u] = [if is_surrogate u then 0xFFFD else u]"
| "code_points_of_utf16 (h # l # us) =
     (if is_high_surrogate h \<and> is_low_surrogate l
      then (0x10000 + (h - 0xD800) * 1024 + (l - 0xDC00)) # code_points_of_utf16 us
      else (if is_surrogate h then 0xFFFD else h) # code_points_of_utf16 (l # us))"

definition utf8_of_code_point :: "nat \<Rightarrow> nat list" where
  "utf8_of_code_point c =
     (if c < 0x80 then [c]
      else if c < 0x800 then [0xC0 + c div 64, 0x80 + c mod 64]
      else if c < 0x10000 then [0xE0 + c div 4096, 0x80 + (c div 64) mod 64, 0x80 + c mod 64]
      else [0xF0 + c div 262144, 0x80 + (c div 4096) mod 64,
            0x80 + (c div 64) mod 64, 0x80 + c mod 64])"

definition utf8_encode :: "jsstring \<Rightarrow> Buffer" where
  "utf8_encode s =
     map of_nat (concat (map utf8_of_code_point (code_points_of_utf16 (map unat s))))"

text \<open>
  Decoding replaces every ill-formed byte sequence by U+FFFD and goes on with the byte
  that ended it. The second byte of a sequence has a narrower range after the lead bytes
  E0, ED, F0 and F4.
\<close>

definition is_continuation :: "nat \<Rightarrow> bool" where
  "is_continuation b \<longleftrightarrow> 0x80 \<le> b \<and> b \<le> 0xBF"

definition second_byte_ok :: "nat \<Rightarrow> nat \<Rightarrow> bool" where
  "second_byte_ok lead b \<longleftrightarrow>
     (if lead = 0xE0 then 0xA0 else if lead = 0xF0 then 0x90 else 0x80) \<le> b
     \<and> b \<le> (if lead = 0xED then 0x9F else if lead = 0xF4 then 0x8F else 0xBF)"

fun code_points_of_utf8 :: "nat list \<Rightarrow> nat list" where
  "code_points_of_utf8 [] = []"
| "code_points_of_utf8 (b # bs) =
     (if b < 0x80 then b # code_points_of_utf8 bs
      else if 0xC2 \<le> b \<and> b \<le> 0xDF then
        (case bs of
           [] \<Rightarrow> [0xFFFD]
         | c1 # r1 \<Rightarrow>
             if is_continuation c1
             then ((b - 0xC0) * 64 + (c1 - 0x80)) # code_points_of_utf8 r1
             else 0xFFFD # code_points_of_utf8 bs)
      else if 0xE0 \<le> b \<and> b \<le> 0xEF then
        (case bs of
           [] \<Rightarrow> [0xFFFD]
         | c1 # r1 \<Rightarrow>
             if second_byte_ok b c1 then
               (case r1 of
                  [] \<Rightarrow> [0xFFFD]
                | c2 # r2 \<Rightarrow>
                    if is_continuation c2
                    then ((b - 0xE0) * 4096 + (c1 - 0x80) * 64 + (c2 - 0x80))
                         # code_points_of_utf8 r2
                    else 0xFFFD # code_points_of_utf8 r1)
             else 0xFFFD # code_points_of_utf8 bs)
      else if 0xF0 \<le> b \<and> b \<le> 0xF4 then
        (case bs of
           [] \<Rightarrow> [0xFFFD]
         | c1 # r1 \<Rightarrow>
             if second_byte_ok b c1 then
               (case r1 of
                  [] \<Rightarrow> [0xFFFD]
                | c2 # r2 \<Rightarrow>
                    if is_continuation c2 then
                      (case r2 of
                         [] \<Rightarrow> [0xFFFD]
                       | c3 # r3 \<Rightarrow>
                           if is_continuation c3
                           then ((b - 0xF0) * 262144 + (c1 - 0x80) * 4096
                                 + (c2 - 0x80) * 64 + (c3 - 0x80))
                                # code_points_of_utf8 r3
                           else 0xFFFD # code_points_of_utf8 r2)
                    else 0xFFFD # code_points_of_utf8 r1)
             else 0xFFFD # code_points_of_utf8 bs)
      else 0xFFFD # code_points_of_utf8 bs)"

definition utf16_of_code_point :: "nat \<Rightarrow> nat list" where
  "utf16_of_code_point c =
     (if c < 0x10000 then [c]
      else [0xD800 + (c - 0x10000) div 1024, 0xDC00 + (c - 0x10000) mod 1024])"

definition utf8_decode :: "Buffer \<Rightarrow> jsstring" where
  "utf8_decode bs =
     map of_nat (concat (map utf16_of_code_point (code_points_of_utf8 (map unat bs))))"

text \<open>A string that UTF-8 represents exactly: no surrogate is unpaired.\<close>

fun well_formed_utf16 :: "nat list \<Rightarrow> bool" where
  "well_formed_utf16 [] = True"
| "well_formed_utf16 [u] = (\<not> is_surrogate u)"
| "well_formed_utf16 (h # l # us) =
     (if is_high_surrogate h \<and> is_low_surrogate l then well_formed_utf16 us
      else \<not> is_surrogate h \<and> well_formed_utf16 (l # us))"

definition well_formed :: "jsstring \<Rightarrow> bool" where
  "well_formed s = well_formed_utf16 (map unat s)"

subsection \<open>Hexadecimal (\<^verbatim>\<open>buf.toString("hex")\<close> and \<^verbatim>\<open>Buffer.from(s, "hex")\<close>)\<close>

definition hex_digit :: "nat \<Rightarrow> 16 word" where
  "hex_digit n = (if n < 10 then of_nat (48 + n) else of_nat (87 + n))"

fun hex_encode :: "Buffer \<Rightarrow> jsstring" where
  "hex_encode [] = []"
| "hex_encode (b # bs) =
     hex_digit (unat b div 16) # hex_digit (unat b mod 16) # hex_encode bs"

definition unhex :: "16 word \<Rightarrow> nat option" where
  "unhex c =
     (let n = unat c in
      if 48 \<le> n \<and> n \<le> 57 then Some (n - 48)
      else if 97 \<le> n \<and> n \<le> 102 then Some (n - 87)
      else if 65 \<le> n \<and> n \<le> 70 then Some (n - 55)
      else None)"

text \<open>
  Decoding reads two characters at a time. Node's decoder casts each code unit to 8 bits
  before it looks the digit up, so a character counts by the low byte of its code unit:
  U+0131 reads as the digit 1. Decoding stops, without an error, at the first pair whose
  low bytes are not two hexadecimal digits; a single last character is dropped.
\<close>

definition low_byte :: "16 word \<Rightarrow> 16 word" where
  "low_byte c = ucast (ucast c :: byte)"

fun hex_decode :: "jsstring \<Rightarrow> Buffer" where
  "hex_decode (a # b # cs) =
     (case unhex (low_byte a) of
        None \<Rightarrow> []
      | Some x \<Rightarrow>
          (case unhex (low_byte b) of
             None \<Rightarrow> []
           | Some y \<Rightarrow> of_nat (16 * x + y) # hex_decode cs))"
| "hex_decode _ = []"

subsection \<open>\<^verbatim>\<open>split(":")\<close>, \<^verbatim>\<open>shift()\<close> and \<^verbatim>\<open>join(":")\<close>\<close>

definition colon :: "16 word" where
  "colon = 0x3A"

fun js_split :: "jsstring \<Rightarrow> jsstring list" where
  "js_split [] = [[]]"
| "js_split (c # cs) =
     (if c = colon then [] # js_split cs
      else (case js_split cs of
              [] \<Rightarrow> [[c]]
            | p # ps \<Rightarrow> (c # p) # ps))"

fun js_join :: "jsstring list \<Rightarrow> jsstring" where
  "js_join [] = []"
| "js_join [p] = p"
| "js_join (p # q # ps) = p @ colon # js_join (q # ps)"

section \<open>The Node \<^verbatim>\<open>crypto\<close> module, as far as the codec uses it\<close>

subsection \<open>\<^verbatim>\<open>crypto.randomBytes\<close>\<close>

text \<open>
  The entropy source is an endless sequence of bytes and the number of bytes drawn so
  far: \<open>randomBytes n\<close> returns the next \<open>n\<close> bytes and advances.
\<close>

record entropy =
  pool :: "nat \<Rightarrow> byte"
  drawn :: nat

definition randomBytes :: "nat \<Rightarrow> entropy \<Rightarrow> Buffer \<times> entropy" where
  "randomBytes n g = (map (pool g) [drawn g ..< drawn g + n], g\<lparr>drawn := drawn g + n\<rparr>)"

subsection \<open>What is thrown\<close>

text \<open>
  The errors of Node and OpenSSL, the error of a socket with its message, and the value
  \<^verbatim>\<open>undefined\<close>, which is what a promise rejected by \<^verbatim>\<open>reject()\<close> throws at its
  \<^verbatim>\<open>await\<close>.
\<close>

datatype error =
    ERR_CRYPTO_UNKNOWN_CIPHER
  | ERR_CRYPTO_INVALID_IV
  | ERR_CRYPTO_INVALID_KEYLEN
  | ERR_OSSL_WRONG_FINAL_BLOCK_LENGTH
  | ERR_OSSL_BAD_DECRYPT
  | ERR_INVALID_ARG_TYPE
  | ERR_INVALID_ARG_VALUE
  | SyntaxError
  | SocketError string
  | JS_undefined

subsection \<open>The block cipher\<close>

text \<open>
  AES-256 itself is OpenSSL's. The model takes its two block functions (key, then
  block) as a parameter; \<open>aes256_ok\<close> says what the mode of operation relies on: on a
  32-byte key and a 16-byte block both functions return 16 bytes and decryption undoes
  encryption.
\<close>

record aes256 =
  encrypt_block :: "Buffer \<Rightarrow> Buffer \<Rightarrow> Buffer"
  decrypt_block :: "Buffer \<Rightarrow> Buffer \<Rightarrow> Buffer"

definition aes256_ok :: "aes256 \<Rightarrow> bool" where
  "aes256_ok A \<longleftrightarrow>
     (\<forall>k b. length k = 32 \<and> length b = 16 \<longrightarrow>
        length (encrypt_block A k b) = 16 \<and> length (decrypt_block A k b) = 16
        \<and> decrypt_block A k (encrypt_block A k b) = b)"

text \<open>The block ciphers: the pairs of block functions with these properties.\<close>

typedef block_cipher = "{A. aes256_ok A}"
  by (rule exI [of _ "\<lparr>encrypt_block = (\<lambda>k b. b), decrypt_block = (\<lambda>k b. b)\<rparr>"])
     (simp add: aes256_ok_def)

text \<open>
  A stand-in with these properties, for evaluating the codec on concrete inputs: it adds
  the first sixteen key bytes to the block, bytewise.
\<close>

definition stand_in_cipher :: aes256 where
  "stand_in_cipher =
     \<lparr>encrypt_block = (\<lambda>k b. map2 (+) b (take 16 k)),
      decrypt_block = (\<lambda>k b. map2 (-) b (take 16 k))\<rparr>"

text \<open>An entropy source for evaluating the codec on concrete inputs.\<close>

definition example_entropy :: entropy where
  "example_entropy = \<lparr>pool = (\<lambda>i. of_nat (7 * i + 3)), drawn = 0\<rparr>"

subsection \<open>CBC mode with PKCS#7 padding: \<^verbatim>\<open>createCipheriv\<close>, \<^verbatim>\<open>update\<close>, \<^verbatim>\<open>final\<close>\<close>

definition xor_bytes :: "Buffer \<Rightarrow> Buffer \<Rightarrow> Buffer" where
  "xor_bytes xs ys = map2 (XOR) xs ys"

text \<open>
  \<open>cbc_encrypt A k c xs\<close> encrypts the whole 16-byte blocks of \<open>xs\<close>, chaining from
  \<open>c\<close>; \<open>cbc_decrypt\<close> decrypts them. \<open>last_block c ys\<close> is the chaining value after
  the blocks \<open>ys\<close> of ciphertext.
\<close>

function cbc_encrypt :: "aes256 \<Rightarrow> Buffer \<Rightarrow> Buffer \<Rightarrow> Buffer \<Rightarrow> Buffer" where
  "cbc_encrypt A k c xs =
     (if length xs < 16 then []
      else (let y = encrypt_block A k (xor_bytes (take 16 xs) c)
            in y @ cbc_encrypt A k y (drop 16 xs)))"
  by pat_completeness auto
termination
  by (relation "measure (\<lambda>(A, k, c, xs). length xs)") auto

declare cbc_encrypt.simps [simp del]

function cbc_decrypt :: "aes256 \<Rightarrow> Buffer \<Rightarrow> Buffer \<Rightarrow> Buffer \<Rightarrow> Buffer" where
  "cbc_decrypt A k c ys =
     (if length ys < 16 then []
      else xor_bytes (decrypt_block A k (take 16 ys)) c
           @ cbc_decrypt A k (take 16 ys) (drop 16 ys))"
  by pat_completeness auto
termination
  by (relation "measure (\<lambda>(A, k, c, ys). length ys)") auto

declare cbc_decrypt.simps [simp del]

definition last_block :: "Buffer \<Rightarrow> Buffer \<Rightarrow> Buffer" where
  "last_block c ys = (if length ys < 16 then c else drop (length ys - 16) ys)"

text \<open>
  A cipher object holds the key, the chaining value (the IV at first) and the input
  bytes it has not processed yet. \<^verbatim>\<open>createCipheriv\<close> and \<^verbatim>\<open>createDecipheriv\<close> make the
  same checks, in this order: the algorithm's name, the IV's length, the key's length.
\<close>

record CipherBase =
  cipher_key :: Buffer
  chain :: Buffer
  pending :: Buffer

definition createCipheriv :: "string \<Rightarrow> Buffer \<Rightarrow> Buffer \<Rightarrow> error + CipherBase" where
  "createCipheriv alg k iv =
     (if alg \<noteq> ''aes-256-cbc'' then Inl ERR_CRYPTO_UNKNOWN_CIPHER
      else if length iv \<noteq> 16 then Inl ERR_CRYPTO_INVALID_IV
      else if length k \<noteq> 32 then Inl ERR_CRYPTO_INVALID_KEYLEN
      else Inr \<lparr>cipher_key = k, chain = iv, pending = []\<rparr>)"

definition createDecipheriv :: "string \<Rightarrow> Buffer \<Rightarrow> Buffer \<Rightarrow> error + CipherBase" where
  "createDecipheriv alg k iv = createCipheriv alg k iv"

text \<open>\<^verbatim>\<open>cipher.update\<close> encrypts every whole block it has and keeps the rest.\<close>

definition Cipher_update :: "aes256 \<Rightarrow> CipherBase \<Rightarrow> Buffer \<Rightarrow> Buffer \<times> CipherBase" where
  "Cipher_update A c data =
     (let buf = pending c @ data;
          n = (length buf div 16) * 16;
          out = cbc_encrypt A (cipher_key c) (chain c) (take n buf)
      in (out, c\<lparr>chain := last_block (chain c) out, pending := drop n buf\<rparr>))"

text \<open>\<^verbatim>\<open>cipher.final\<close> pads the rest to one block (PKCS#7) and encrypts it.\<close>

definition Cipher_final :: "aes256 \<Rightarrow> CipherBase \<Rightarrow> Buffer" where
  "Cipher_final A c =
     (let p = 16 - length (pending c) mod 16
      in cbc_encrypt A (cipher_key c) (chain c) (pending c @ replicate p (of_nat p)))"

text \<open>
  \<^verbatim>\<open>decipher.update\<close> decrypts every whole block it has, except that it holds the last
  one back when the input ends on a block boundary: that block may be the padding.
\<close>

definition Decipher_update :: "aes256 \<Rightarrow> CipherBase \<Rightarrow> Buffer \<Rightarrow> Buffer \<times> CipherBase" where
  "Decipher_update A c data =
     (let buf = pending c @ data;
          n = (if buf \<noteq> [] \<and> length buf mod 16 = 0 then length buf - 16
               else (length buf div 16) * 16);
          out = cbc_decrypt A (cipher_key c) (chain c) (take n buf)
      in (out, c\<lparr>chain := last_block (chain c) (take n buf), pending := drop n buf\<rparr>))"

text \<open>
  \<^verbatim>\<open>decipher.final\<close> needs exactly one block held back, decrypts it and checks the
  padding: the last byte \<open>n\<close> is between 1 and 16 and the last \<open>n\<close> bytes are all \<open>n\<close>.
\<close>

definition Decipher_final :: "aes256 \<Rightarrow> CipherBase \<Rightarrow> error + Buffer" where
  "Decipher_final A c =
     (if length (pending c) \<noteq> 16 then Inl ERR_OSSL_WRONG_FINAL_BLOCK_LENGTH
      else (let p = xor_bytes (decrypt_block A (cipher_key c) (pending c)) (chain c);
                n = unat (p ! 15)
            in if n = 0 \<or> 16 < n then Inl ERR_OSSL_BAD_DECRYPT
               else if list_all (\<lambda>b. unat b = n) (drop (16 - n) p)
               then Inr (take (16 - n) p)
               else Inl ERR_OSSL_BAD_DECRYPT))"

section \<open>The codec: class \<^verbatim>\<open>PNPEncryption\<close>\<close>

subsection \<open>With a key of its own and an IV for each message\<close>

text \<open>
  The constructor takes no argument: it sets the algorithm and draws the key.
\<close>

record PNPEncryption =
  algorithm :: string
  key :: Buffer

definition PNPEncryption_new :: "entropy \<Rightarrow> PNPEncryption \<times> entropy" where
  "PNPEncryption_new g =
     (let (k, g') = randomBytes 32 g
      in (\<lparr>algorithm = ''aes-256-cbc'', key = k\<rparr>, g'))"

definition encrypt ::
  "aes256 \<Rightarrow> PNPEncryption \<Rightarrow> jsstring \<Rightarrow> entropy \<Rightarrow> (error + Buffer) \<times> entropy" where
  "encrypt A this data g =
     (let (iv, g') = randomBytes 16 g
      in (case createCipheriv (algorithm this) (key this) iv of
            Inl e \<Rightarrow> Inl e
          | Inr cipher \<Rightarrow>
              (let (out, cipher') = Cipher_update A cipher (utf8_encode data);
                   encrypted = hex_encode out;
                   encrypted = encrypted @ hex_encode (Cipher_final A cipher')
               in Inr (utf8_encode (hex_encode iv @ [colon] @ encrypted))),
          g'))"

definition decrypt :: "aes256 \<Rightarrow> PNPEncryption \<Rightarrow> Buffer \<Rightarrow> error + jsstring" where
  "decrypt A this data =
     (case js_split (utf8_decode data) of
        [] \<Rightarrow> Inl ERR_INVALID_ARG_TYPE
      | first # textParts \<Rightarrow>
          (let iv = hex_decode first;
               encryptedText = hex_decode (js_join textParts)
           in case createDecipheriv (algorithm this) (key this) iv of
                Inl e \<Rightarrow> Inl e
              | Inr decipher \<Rightarrow>
                  (let (out, decipher') = Decipher_update A decipher encryptedText
                   in case Decipher_final A decipher' of
                        Inl e \<Rightarrow> Inl e
                      | Inr fin \<Rightarrow> Inr (utf8_decode (out @ fin)))))"

subsection \<open>With the key and the IV given to the constructor (\<^verbatim>\<open>PapayaClient.ts\<close>)\<close>

record PapayaClient_PNPEncryption =
  pc_algorithm :: string
  pc_key :: Buffer
  pc_iv :: Buffer

definition PapayaClient_PNPEncryption_new :: "Buffer \<Rightarrow> Buffer \<Rightarrow> PapayaClient_PNPEncryption" where
  "PapayaClient_PNPEncryption_new k v = \<lparr>pc_algorithm = ''aes-256-cbc'', pc_key = k, pc_iv = v\<rparr>"

definition PapayaClient_encrypt ::
  "aes256 \<Rightarrow> PapayaClient_PNPEncryption \<Rightarrow> jsstring \<Rightarrow> error + jsstring" where
  "PapayaClient_encrypt A this data =
     (case createCipheriv (pc_algorithm this) (pc_key this) (pc_iv this) of
        Inl e \<Rightarrow> Inl e
      | Inr cipher \<Rightarrow>
          (let (out, cipher') = Cipher_update A cipher (utf8_encode data);
               encrypted = hex_encode out;
               encrypted = encrypted @ hex_encode (Cipher_final A cipher')
           in Inr encrypted))"

text \<open>
  Here \<^verbatim>\<open>decipher.update\<close> gets the text with the input encoding \<^verbatim>\<open>"hex"\<close>: Node refuses a
  string of odd length and decodes any other as \<open>hex_decode\<close> does. The output encoding
  \<^verbatim>\<open>"utf-8"\<close> goes through one string decoder for \<^verbatim>\<open>update\<close> and \<^verbatim>\<open>final\<close>, which carries
  an unfinished character over: the two strings together are the decoding of all bytes.
\<close>

definition PapayaClient_decrypt ::
  "aes256 \<Rightarrow> PapayaClient_PNPEncryption \<Rightarrow> Buffer \<Rightarrow> error + jsstring" where
  "PapayaClient_decrypt A this data =
     (case createDecipheriv (pc_algorithm this) (pc_key this) (pc_iv this) of
        Inl e \<Rightarrow> Inl e
      | Inr decipher \<Rightarrow>
          (let text = utf8_decode data
           in if odd (length text) then Inl ERR_INVALID_ARG_VALUE
              else (let (out, decipher') = Decipher_update A decipher (hex_decode text)
                    in case Decipher_final A decipher' of
                         Inl e \<Rightarrow> Inl e
                       | Inr fin \<Rightarrow> Inr (utf8_decode (out @ fin)))))"

section \<open>\<^verbatim>\<open>JSON.stringify\<close> and \<^verbatim>\<open>JSON.parse\<close>\<close>

text \<open>
  The values that JSON text denotes. A number is kept as its text: the model does not
  compute with floating point. An object is the list of its own properties in the order
  in which JavaScript enumerates them.
\<close>

datatype json =
    JNull
  | JBool bool
  | JNumber jsstring
  | JString jsstring
  | JArray "json list"
  | JObject "(jsstring \<times> json) list"

subsection \<open>Writing\<close>

definition hex4 :: "nat \<Rightarrow> jsstring" where
  "hex4 n = [hex_digit (n div 4096 mod 16), hex_digit (n div 256 mod 16),
             hex_digit (n div 16 mod 16), hex_digit (n mod 16)]"

text \<open>
  One code unit inside a string literal: the short escapes, \<^verbatim>\<open>\uXXXX\<close> for the other
  control characters and for a surrogate without its partner, the unit itself otherwise.
\<close>

definition escape_unit :: "16 word \<Rightarrow> jsstring" where
  "escape_unit u =
     (if u = 0x08 then [0x5C, 0x62]
      else if u = 0x09 then [0x5C, 0x74]
      else if u = 0x0A then [0x5C, 0x6E]
      else if u = 0x0C then [0x5C, 0x66]
      else if u = 0x0D then [0x5C, 0x72]
      else if u = 0x22 then [0x5C, 0x22]
      else if u = 0x5C then [0x5C, 0x5C]
      else if unat u < 0x20 \<or> is_surrogate (unat u) then [0x5C, 0x75] @ hex4 (unat u)
      else [u])"

fun quote_code_units :: "jsstring \<Rightarrow> jsstring" where
  "quote_code_units [] = []"
| "quote_code_units [u] = escape_unit u"
| "quote_code_units (h # l # us) =
     (if is_high_surrogate (unat h) \<and> is_low_surrogate (unat l)
      then h # l # quote_code_units us
      else escape_unit h @ quote_code_units (l # us))"

definition QuoteJSONString :: "jsstring \<Rightarrow> jsstring" where
  "QuoteJSONString s = [0x22] @ quote_code_units s @ [0x22]"

fun join_comma :: "jsstring list \<Rightarrow> jsstring" where
  "join_comma [] = []"
| "join_comma [x] = x"
| "join_comma (x # y # zs) = x @ [0x2C] @ join_comma (y # zs)"

fun JSON_stringify :: "json \<Rightarrow> jsstring" where
  "JSON_stringify JNull = ascii ''null''"
| "JSON_stringify (JBool b) = (if b then ascii ''true'' else ascii ''false'')"
| "JSON_stringify (JNumber t) = t"
| "JSON_stringify (JString s) = QuoteJSONString s"
| "JSON_stringify (JArray vs) = [0x5B] @ join_comma (map JSON_stringify vs) @ [0x5D]"
| "JSON_stringify (JObject ps) =
     [0x7B]
     @ join_comma (map (\<lambda>p. QuoteJSONString (fst p) @ [0x3A] @ JSON_stringify (snd p)) ps)
     @ [0x7D]"

subsection \<open>Reading\<close>

definition is_ws :: "16 word \<Rightarrow> bool" where
  "is_ws c \<longleftrightarrow> c = 0x09 \<or> c = 0x0A \<or> c = 0x0D \<or> c = 0x20"

definition skip_ws :: "jsstring \<Rightarrow> jsstring" where
  "skip_ws s = dropWhile is_ws s"

definition is_digit :: "16 word \<Rightarrow> bool" where
  "is_digit c \<longleftrightarrow> 0x30 \<le> unat c \<and> unat c \<le> 0x39"

text \<open>
  The rest of a string literal after its opening quote: the string it denotes and the
  text after the closing quote.
\<close>

fun parse_string :: "jsstring \<Rightarrow> (jsstring \<times> jsstring) option" where
  "parse_string [] = None"
| "parse_string (c # cs) =
     (if c = 0x22 then Some ([], cs)
      else if c = 0x5C then
        (case cs of
           [] \<Rightarrow> None
         | e # r \<Rightarrow>
             if e = 0x75 then
               (case r of
                  h1 # h2 # h3 # h4 # r' \<Rightarrow>
                    (case (unhex h1, unhex h2, unhex h3, unhex h4) of
                       (Some a, Some b, Some c, Some d) \<Rightarrow>
                         map_option (apfst ((#) (of_nat (4096 * a + 256 * b + 16 * c + d))))
                           (parse_string r')
                     | _ \<Rightarrow> None)
                | _ \<Rightarrow> None)
             else
               (case (if e = 0x22 then Some 0x22
                      else if e = 0x5C then Some 0x5C
                      else if e = 0x2F then Some 0x2F
                      else if e = 0x62 then Some 0x08
                      else if e = 0x66 then Some 0x0C
                      else if e = 0x6E then Some 0x0A
                      else if e = 0x72 then Some 0x0D
                      else if e = 0x74 then Some 0x09
                      else None) of
                  None \<Rightarrow> None
                | Some u \<Rightarrow> map_option (apfst ((#) u)) (parse_string r)))
      else if unat c < 0x20 then None
      else map_option (apfst ((#) c)) (parse_string cs))"

text \<open>A number: its text and the text after it.\<close>

definition parse_number :: "jsstring \<Rightarrow> (jsstring \<times> jsstring) option" where
  "parse_number s =
     (let (sign, s1) = (case s of c # r \<Rightarrow> if c = 0x2D then ([c], r) else ([], s) | [] \<Rightarrow> ([], s))
      in case s1 of
           [] \<Rightarrow> None
         | c # r \<Rightarrow>
             if \<not> is_digit c then None
             else
               (let (whole, s2) =
                      (if c = 0x30 then ([c], r)
                       else (c # takeWhile is_digit r, dropWhile is_digit r));
                    fraction =
                      (case s2 of
                         [] \<Rightarrow> Some ([], s2)
                       | d # r2 \<Rightarrow>
                           if d \<noteq> 0x2E then Some ([], s2)
                           else if takeWhile is_digit r2 = [] then None
                           else Some (d # takeWhile is_digit r2, dropWhile is_digit r2))
                in case fraction of
                     None \<Rightarrow> None
                   | Some (frac, s3) \<Rightarrow>
                       (case s3 of
                          [] \<Rightarrow> Some (sign @ whole @ frac, s3)
                        | e # r3 \<Rightarrow>
                            if e \<noteq> 0x45 \<and> e \<noteq> 0x65 then Some (sign @ whole @ frac, s3)
                            else
                              (let (esign, r4) =
                                     (case r3 of
                                        g # r' \<Rightarrow>
                                          if g = 0x2B \<or> g = 0x2D then ([g], r') else ([], r3)
                                      | [] \<Rightarrow> ([], r3))
                               in if takeWhile is_digit r4 = [] then None
                                  else Some (sign @ whole @ frac @ [e] @ esign
                                               @ takeWhile is_digit r4,
                                             dropWhile is_digit r4)))))"

text \<open>
  Defining a property of an object under construction: a key that is there keeps its
  place and gets the new value; a new key that is an array index goes among the array
  indices, in ascending order, which come first; any other new key goes last.
\<close>

definition array_index :: "jsstring \<Rightarrow> nat option" where
  "array_index k =
     (let n = foldl (\<lambda>n c. 10 * n + (unat c - 0x30)) 0 k
      in if k \<noteq> [] \<and> list_all is_digit k \<and> (length k = 1 \<or> hd k \<noteq> 0x30) \<and> n < 4294967295
         then Some n else None)"

fun insert_property :: "(jsstring \<times> json) list \<Rightarrow> jsstring \<Rightarrow> json \<Rightarrow> (jsstring \<times> json) list" where
  "insert_property [] k v = [(k, v)]"
| "insert_property (p # ps) k v =
     (case array_index k of
        None \<Rightarrow> p # insert_property ps k v
      | Some i \<Rightarrow>
          (case array_index (fst p) of
             None \<Rightarrow> (k, v) # p # ps
           | Some j \<Rightarrow> if j < i then p # insert_property ps k v else (k, v) # p # ps))"

definition define_property :: "(jsstring \<times> json) list \<Rightarrow> jsstring \<Rightarrow> json \<Rightarrow> (jsstring \<times> json) list" where
  "define_property ps k v =
     (if k \<in> set (map fst ps) then map (\<lambda>p. if fst p = k then (k, v) else p) ps
      else insert_property ps k v)"

text \<open>
  A value, the elements of an array after its opening bracket, the members of an object
  after its opening brace. Each returns what it read and the text after it. A value is
  never empty text, which the tests on the lengths repeat for the termination proof.
\<close>

function parse_value :: "jsstring \<Rightarrow> (json \<times> jsstring) option"
  and parse_elements :: "json list \<Rightarrow> jsstring \<Rightarrow> (json list \<times> jsstring) option"
  and parse_members ::
    "(jsstring \<times> json) list \<Rightarrow> jsstring \<Rightarrow> ((jsstring \<times> json) list \<times> jsstring) option"
where
  "parse_value s =
     (case skip_ws s of
        [] \<Rightarrow> None
      | c # cs \<Rightarrow>
          if c = 0x7B then
            (case skip_ws cs of
               [] \<Rightarrow> None
             | d # ds \<Rightarrow>
                 if d = 0x7D then Some (JObject [], ds)
                 else (case parse_members [] (d # ds) of
                         None \<Rightarrow> None
                       | Some (ps, rest) \<Rightarrow> Some (JObject ps, rest)))
          else if c = 0x5B then
            (case skip_ws cs of
               [] \<Rightarrow> None
             | d # ds \<Rightarrow>
                 if d = 0x5D then Some (JArray [], ds)
                 else (case parse_elements [] (d # ds) of
                         None \<Rightarrow> None
                       | Some (vs, rest) \<Rightarrow> Some (JArray vs, rest)))
          else if c = 0x22 then
            (case parse_string cs of
               None \<Rightarrow> None
             | Some (t, rest) \<Rightarrow> Some (JString t, rest))
          else if take 4 (c # cs) = ascii ''true'' then Some (JBool True, drop 4 (c # cs))
          else if take 5 (c # cs) = ascii ''false'' then Some (JBool False, drop 5 (c # cs))
          else if take 4 (c # cs) = ascii ''null'' then Some (JNull, drop 4 (c # cs))
          else (case parse_number (c # cs) of
                  None \<Rightarrow> None
                | Some (t, rest) \<Rightarrow> Some (JNumber t, rest)))"
| "parse_elements acc s =
     (case parse_value s of
        None \<Rightarrow> None
      | Some (v, rest) \<Rightarrow>
          if length rest < length s then
            (case skip_ws rest of
               [] \<Rightarrow> None
             | d # ds \<Rightarrow>
                 if d = 0x2C then parse_elements (acc @ [v]) ds
                 else if d = 0x5D then Some (acc @ [v], ds)
                 else None)
          else None)"
| "parse_members acc s =
     (case skip_ws s of
        [] \<Rightarrow> None
      | q # cs \<Rightarrow>
          if q \<noteq> 0x22 then None
          else
            (case parse_string cs of
               None \<Rightarrow> None
             | Some (k, r1) \<Rightarrow>
                 (case skip_ws r1 of
                    [] \<Rightarrow> None
                  | d # ds \<Rightarrow>
                      if d \<noteq> 0x3A \<or> \<not> length ds < length s then None
                      else
                        (case parse_value ds of
                           None \<Rightarrow> None
                         | Some (v, rest) \<Rightarrow>
                             if length rest < length ds then
                               (case skip_ws rest of
                                  [] \<Rightarrow> None
                                | e # es \<Rightarrow>
                                    if e = 0x2C then parse_members (define_property acc k v) es
                                    else if e = 0x7D then Some (define_property acc k v, es)
                                    else None)
                             else None))))"
  by pat_completeness auto
termination
proof (relation "measure (\<lambda>x. case x of
    Inl s \<Rightarrow> 2 * length s
  | Inr (Inl (acc, s)) \<Rightarrow> 2 * length s + 1
  | Inr (Inr (acc, s)) \<Rightarrow> 2 * length s + 1)", goal_cases)
  case 1
  show ?case by simp
next
  have length_skip_ws: "length (skip_ws s) \<le> length s" for s
    by (simp add: skip_ws_def length_dropWhile_le)
  {
  case (2 s c cs d ds)
  then show ?case
    using length_skip_ws [of s] length_skip_ws [of cs] by simp
next
  case (3 s c cs d ds)
  then show ?case
    using length_skip_ws [of s] length_skip_ws [of cs] by simp
next
  case (4 acc s)
  show ?case by simp
next
  case (5 acc s x v rest d ds)
  then show ?case
    using length_skip_ws [of rest] by simp
next
  case (6 acc s q cs x k r1 d ds)
  then show ?case by simp
next
  case (7 acc s q cs x k r1 d ds y v rest e es)
  then show ?case
    using length_skip_ws [of rest] by simp
  }
qed

declare parse_value.simps [simp del] parse_elements.simps [simp del] parse_members.simps [simp del]

definition JSON_parse :: "jsstring \<Rightarrow> error + json" where
  "JSON_parse text =
     (case parse_value text of
        None \<Rightarrow> Inl SyntaxError
      | Some (v, rest) \<Rightarrow> if skip_ws rest = [] then Inr v else Inl SyntaxError)"

section \<open>The connection and the client\<close>

subsection \<open>Class \<^verbatim>\<open>PNPConnection\<close>\<close>

text \<open>
  \<^verbatim>\<open>net.Socket\<close> is Node's. The model keeps what the client observes of it: the chunks
  written so far, whether \<^verbatim>\<open>write\<close> reports an error, and the events \<^verbatim>\<open>"data"\<close> and
  \<^verbatim>\<open>"error"\<close> that the socket emits, in order, to a waiting listener. The diagnostic
  lines that the connection prints are left out.
\<close>

datatype socket_event = DataEvent Buffer | ErrorEvent string

record Socket =
  written :: "Buffer list"
  write_fault :: "string option"
  events :: "socket_event list"

record PNPConnection =
  host :: string
  port :: nat
  socket :: Socket
  debugMode :: bool

definition PNPConnection_new :: "string \<Rightarrow> nat \<Rightarrow> bool \<Rightarrow> Socket \<Rightarrow> PNPConnection" where
  "PNPConnection_new h p mode sock = \<lparr>host = h, port = p, socket = sock, debugMode = mode\<rparr>"

text \<open>
  \<^verbatim>\<open>send\<close> resolves when \<^verbatim>\<open>write\<close> calls back without an error and rejects with the
  error otherwise.
\<close>

definition send :: "PNPConnection \<Rightarrow> Buffer \<Rightarrow> (error + unit) \<times> PNPConnection" where
  "send this data =
     (case write_fault (socket this) of
        Some err \<Rightarrow> (Inl (SocketError err), this)
      | None \<Rightarrow>
          (Inr (), this\<lparr>socket := (socket this)\<lparr>written := written (socket this) @ [data]\<rparr>\<rparr>))"

text \<open>
  \<^verbatim>\<open>receive\<close> resolves with the chunk of the next \<^verbatim>\<open>"data"\<close> event and rejects at an
  \<^verbatim>\<open>"error"\<close> event. When the socket emits nothing the promise stays pending: \<open>None\<close>.
\<close>

definition receive :: "PNPConnection \<Rightarrow> ((error + Buffer) \<times> PNPConnection) option" where
  "receive this =
     (case events (socket this) of
        [] \<Rightarrow> None
      | DataEvent data # es \<Rightarrow> Some (Inr data, this\<lparr>socket := (socket this)\<lparr>events := es\<rparr>\<rparr>)
      | ErrorEvent err # es \<Rightarrow>
          Some (Inl (SocketError err), this\<lparr>socket := (socket this)\<lparr>events := es\<rparr>\<rparr>))"

subsection \<open>Class \<^verbatim>\<open>PNP\<close>\<close>

record PNP =
  connection :: PNPConnection
  encryption :: PNPEncryption

definition PNP_new :: "string \<Rightarrow> nat \<Rightarrow> bool \<Rightarrow> Socket \<Rightarrow> entropy \<Rightarrow> PNP \<times> entropy" where
  "PNP_new h p mode sock g =
     (let (enc, g') = PNPEncryption_new g
      in (\<lparr>connection = PNPConnection_new h p mode sock, encryption = enc\<rparr>, g'))"

text \<open>
  \<open>sendRequest\<close> returns the outcome (the parsed response or what was thrown), the
  client and the entropy source after the call; \<open>None\<close> when \<^verbatim>\<open>receive\<close> stays pending.
\<close>

definition sendRequest ::
  "aes256 \<Rightarrow> PNP \<Rightarrow> json \<Rightarrow> entropy \<Rightarrow> ((error + json) \<times> PNP \<times> entropy) option" where
  "sendRequest A this request g =
     (let data = JSON_stringify request;
          (enc, g') = encrypt A (encryption this) data g
      in case enc of
           Inl e \<Rightarrow> Some (Inl e, this, g')
         | Inr encrypted \<Rightarrow>
             (case send (connection this) encrypted of
                (Inl e, c1) \<Rightarrow> Some (Inl e, this\<lparr>connection := c1\<rparr>, g')
              | (Inr _, c1) \<Rightarrow>
                  (case receive c1 of
                     None \<Rightarrow> None
                   | Some (Inl e, c2) \<Rightarrow> Some (Inl e, this\<lparr>connection := c2\<rparr>, g')
                   | Some (Inr responseEncrypted, c2) \<Rightarrow>
                       (case decrypt A (encryption this) responseEncrypted of
                          Inl e \<Rightarrow> Some (Inl e, this\<lparr>connection := c2\<rparr>, g')
                        | Inr responseData \<Rightarrow>
                            Some (JSON_parse responseData, this\<lparr>connection := c2\<rparr>, g')))))"

subsection \<open>Class \<^verbatim>\<open>PNPClient\<close> of \<^verbatim>\<open>PapayaClient.ts\<close>\<close>

text \<open>
  Its connection has no debug flag (it always prints) and the same \<^verbatim>\<open>receive\<close>. Its
  \<^verbatim>\<open>send\<close> rejects with no value when \<^verbatim>\<open>write\<close> reports an error: the caller's \<^verbatim>\<open>await\<close>
  throws \<^verbatim>\<open>undefined\<close>. Its codec returns text, which \<^verbatim>\<open>Buffer.from\<close> encodes before
  it is sent.
\<close>

definition PapayaClient_send :: "PNPConnection \<Rightarrow> Buffer \<Rightarrow> (error + unit) \<times> PNPConnection" where
  "PapayaClient_send this data =
     (case write_fault (socket this) of
        Some err \<Rightarrow> (Inl JS_undefined, this)
      | None \<Rightarrow>
          (Inr (), this\<lparr>socket := (socket this)\<lparr>written := written (socket this) @ [data]\<rparr>\<rparr>))"

record PNPClient =
  pc_connection :: PNPConnection
  pc_encryption :: PapayaClient_PNPEncryption

definition PNPClient_new :: "string \<Rightarrow> nat \<Rightarrow> Buffer \<Rightarrow> Buffer \<Rightarrow> Socket \<Rightarrow> PNPClient" where
  "PNPClient_new h p k v sock =
     \<lparr>pc_connection = PNPConnection_new h p True sock,
      pc_encryption = PapayaClient_PNPEncryption_new k v\<rparr>"

definition PapayaClient_sendRequest ::
  "aes256 \<Rightarrow> PNPClient \<Rightarrow> json \<Rightarrow> ((error + json) \<times> PNPClient) option" where
  "PapayaClient_sendRequest A this request =
     (let data = JSON_stringify request
      in case PapayaClient_encrypt A (pc_encryption this) data of
           Inl e \<Rightarrow> Some (Inl e, this)
         | Inr encrypted \<Rightarrow>
             (case PapayaClient_send (pc_connection this) (utf8_encode encrypted) of
                (Inl e, c1) \<Rightarrow> Some (Inl e, this\<lparr>pc_connection := c1\<rparr>)
              | (Inr _, c1) \<Rightarrow>
                  (case receive c1 of
                     None \<Rightarrow> None
                   | Some (Inl e, c2) \<Rightarrow> Some (Inl e, this\<lparr>pc_connection := c2\<rparr>)
                   | Some (Inr responseEncrypted, c2) \<Rightarrow>
                       (case PapayaClient_decrypt A (pc_encryption this) responseEncrypted of
                          Inl e \<Rightarrow> Some (Inl e, this\<lparr>pc_connection := c2\<rparr>)
                        | Inr responseData \<Rightarrow>
                            Some (JSON_parse responseData, this\<lparr>pc_connection := c2\<rparr>)))))"

subsection \<open>Requests and responses\<close>

text \<open>
  A value of the interface \<^verbatim>\<open>PNPRequest\<close>: an object with the properties \<^verbatim>\<open>method\<close>
  (\<^verbatim>\<open>"get"\<close> or \<^verbatim>\<open>"post"\<close>), \<^verbatim>\<open>path\<close> and \<^verbatim>\<open>body\<close> (strings) and \<^verbatim>\<open>headers\<close> (an object of
  strings), in the order in which the caller wrote them.
\<close>

definition is_JString :: "json \<Rightarrow> bool" where
  "is_JString v = (case v of JString _ \<Rightarrow> True | _ \<Rightarrow> False)"

definition is_headers :: "json \<Rightarrow> bool" where
  "is_headers v =
     (case v of JObject hs \<Rightarrow> distinct (map fst hs) \<and> list_all (\<lambda>h. is_JString (snd h)) hs
              | _ \<Rightarrow> False)"

definition is_PNPRequest :: "json \<Rightarrow> bool" where
  "is_PNPRequest v =
     (case v of
        JObject ps \<Rightarrow>
          distinct (map fst ps)
          \<and> set (map fst ps) = {ascii ''method'', ascii ''path'', ascii ''headers'', ascii ''body''}
          \<and> (map_of ps (ascii ''method'') = Some (JString (ascii ''get''))
               \<or> map_of ps (ascii ''method'') = Some (JString (ascii ''post'')))
          \<and> (case map_of ps (ascii ''path'') of Some p \<Rightarrow> is_JString p | None \<Rightarrow> False)
          \<and> (case map_of ps (ascii ''headers'') of Some h \<Rightarrow> is_headers h | None \<Rightarrow> False)
          \<and> (case map_of ps (ascii ''body'') of Some b \<Rightarrow> is_JString b | None \<Rightarrow> False)
      | _ \<Rightarrow> False)"

text \<open>The properties that the interface \<^verbatim>\<open>PNPResponse\<close> requires.\<close>

definition has_response_fields :: "json \<Rightarrow> bool" where
  "has_response_fields v =
     (case v of
        JObject ps \<Rightarrow>
          ascii ''status'' \<in> set (map fst ps) \<and> ascii ''headers'' \<in> set (map fst ps)
          \<and> ascii ''body'' \<in> set (map fst ps)
      | _ \<Rightarrow> False)"

subsection \<open>Instances for evaluating the codecs on concrete inputs\<close>

definition example_codec :: PNPEncryption where
  "example_codec = fst (PNPEncryption_new example_entropy)"

definition example_rest :: entropy where
  "example_rest = snd (PNPEncryption_new example_entropy)"

definition PapayaClient_example_codec :: PapayaClient_PNPEncryption where
  "PapayaClient_example_codec =
     PapayaClient_PNPEncryption_new (key example_codec) (fst (randomBytes 16 example_rest))"

text \<open>The request \<^verbatim>\<open>{method: "get", path: "/", headers: {}, body: ""}\<close>.\<close>

definition example_request :: json where
  "example_request =
     JObject [(ascii ''method'', JString (ascii ''get'')), (ascii ''path'', JString (ascii ''/'')),
              (ascii ''headers'', JObject []), (ascii ''body'', JString [])]"

text \<open>
  JSON text in the examples is written with a backquote for each quotation mark.
  \<open>example_client chunk\<close> is a client whose socket delivers \<open>chunk\<close> as its first data.
\<close>

definition jtext :: "string \<Rightarrow> jsstring" where
  "jtext s = map (\<lambda>c. if c = CHR ''`'' then 0x22 else of_nat (of_char c)) s"

definition example_socket :: "Buffer \<Rightarrow> Socket" where
  "example_socket chunk = \<lparr>written = [], write_fault = None, events = [DataEvent chunk]\<rparr>"

definition example_client :: "Buffer \<Rightarrow> PNP" where
  "example_client chunk =
     fst (PNP_new ''localhost'' 947 False (example_socket chunk) example_entropy)"

section \<open>Properties of the status vocabulary\<close>

lemma Status_reverse_value: "Status_reverse (Status_value s) = Some s"
  by (cases s) (simp_all add: Status_reverse_def)

lemma Status_value_range: "100 \<le> Status_value s \<and> Status_value s \<le> 511"
  by (cases s) simp_all

lemma Status_class_range: "1 \<le> Status_class s \<and> Status_class s \<le> 5"
  by (cases s) (simp_all add: Status_class_def)

text \<open>
  Claim C8. The members of \<open>Status\<close> are named integer constants that are pairwise
  distinct (two members have the same number only when they are the same member), every
  number lies between 100 and 511, every member falls into one of the five classes 1xx to
  5xx, the member for "not found" is 404 and the member for "ok" is 200.
\<close>

theorem Status_table_integrity:
  "(Status_value s = Status_value t \<longleftrightarrow> s = t)
   \<and> 100 \<le> Status_value s \<and> Status_value s \<le> 511
   \<and> 1 \<le> Status_class s \<and> Status_class s \<le> 5
   \<and> Status_value NotFound = 404 \<and> Status_value OK = 200"
proof -
  have "s = t" if "Status_value s = Status_value t"
  proof -
    have "Some s = Status_reverse (Status_value s)"
      by (simp add: Status_reverse_value)
    also have "\<dots> = Some t"
      using that by (simp add: Status_reverse_value)
    finally show ?thesis by simp
  qed
  then have "Status_value s = Status_value t \<longleftrightarrow> s = t"
    by blast
  with Status_value_range [of s] Status_class_range [of s] show ?thesis
    by simp
qed

section \<open>Facts about bytes, hexadecimal text and ASCII in UTF-8\<close>

lemma unat_byte_less: "unat (b :: byte) < 256"
  using unsigned_less [where ?'a = nat, of b] by simp

lemma unat_unit_less: "unat (c :: 16 word) < 65536"
  using unsigned_less [where ?'a = nat, of c] by simp

lemma unat_of_nat_byte: "n < 256 \<Longrightarrow> unat (of_nat n :: byte) = n"
  by (simp add: unat_of_nat)

lemma unat_of_nat_unit: "n < 65536 \<Longrightarrow> unat (of_nat n :: 16 word) = n"
  by (simp add: unat_of_nat)

lemma length_randomBytes: "length (fst (randomBytes n g)) = n"
  by (simp add: randomBytes_def)

lemma length_hex_encode: "length (hex_encode bs) = 2 * length bs"
  by (induction bs) simp_all

lemma hex_digit_range:
  "n < 16 \<Longrightarrow> unat (hex_digit n) = (if n < 10 then 48 + n else 87 + n)"
  unfolding hex_digit_def by (simp add: unat_of_nat_unit del: of_nat_add)

lemma ucast_byte_unit: "unat (c :: 16 word) < 256 \<Longrightarrow> ucast (ucast c :: byte) = c"
  by (simp add: word_unat_eq_iff unsigned_ucast_eq unsigned_take_bit_eq take_bit_nat_eq_self)

lemma unat_ucast_byte: "unat (c :: 16 word) < 256 \<Longrightarrow> unat (ucast c :: byte) = unat c"
  by (simp add: unsigned_ucast_eq take_bit_nat_eq_self)

lemma low_byte_ascii: "unat c < 256 \<Longrightarrow> low_byte c = c"
  by (simp add: low_byte_def ucast_byte_unit)

lemma unat_low_byte: "unat (low_byte c) = unat c mod 256"
  by (simp add: low_byte_def unsigned_ucast_eq unsigned_take_bit_eq take_bit_eq_mod unat_mod_distrib)

lemma unhex_hex_digit: "n < 16 \<Longrightarrow> unhex (hex_digit n) = Some n"
  by (simp add: unhex_def hex_digit_range Let_def)

lemma low_byte_hex_digit: "n < 16 \<Longrightarrow> low_byte (hex_digit n) = hex_digit n"
  by (rule low_byte_ascii) (simp add: hex_digit_range)

lemma nibbles: "unat (b :: byte) div 16 < 16 \<and> unat b mod 16 < 16"
  using unat_byte_less [of b] by simp

lemma hex_decode_encode: "hex_decode (hex_encode bs) = bs"
proof (induction bs)
  case Nil
  show ?case by simp
next
  case (Cons b bs)
  have "(of_nat (16 * (unat b div 16) + unat b mod 16) :: byte) = b"
    by simp
  with Cons nibbles [of b] show ?case
    by (simp add: unhex_hex_digit low_byte_hex_digit)
qed

lemma hex_digit_ascii: "n < 16 \<Longrightarrow> unat (hex_digit n) < 128 \<and> hex_digit n \<noteq> colon"
proof -
  assume n: "n < 16"
  then have "unat (hex_digit n) \<noteq> unat colon"
    by (simp add: hex_digit_range colon_def)
  then have "hex_digit n \<noteq> colon" by auto
  with n show ?thesis by (simp add: hex_digit_range)
qed

lemma hex_encode_ascii: "c \<in> set (hex_encode bs) \<Longrightarrow> unat c < 128 \<and> c \<noteq> colon"
proof (induction bs)
  case Nil
  then show ?case by simp
next
  case (Cons b bs)
  from Cons nibbles [of b] hex_digit_ascii [of "unat b div 16"] hex_digit_ascii [of "unat b mod 16"]
  show ?case by auto
qed

lemma code_points_of_utf16_ascii:
  "\<forall>u\<in>set us. u < 128 \<Longrightarrow> code_points_of_utf16 us = us"
  by (induction us rule: code_points_of_utf16.induct)
     (simp_all add: is_surrogate_def is_high_surrogate_def)

lemma concat_utf8_ascii:
  "\<forall>u\<in>set us. u < 128 \<Longrightarrow> concat (map utf8_of_code_point us) = us"
  by (induction us) (simp_all add: utf8_of_code_point_def)

lemma utf8_encode_ascii:
  assumes "\<forall>c\<in>set s. unat c < 128"
  shows "utf8_encode s = map ucast s"
proof -
  have a: "\<forall>u\<in>set (map unat s). u < 128" using assms by simp
  have "utf8_encode s = map of_nat (map unat s)"
    unfolding utf8_encode_def
    by (simp only: code_points_of_utf16_ascii [OF a] concat_utf8_ascii [OF a])
  then show ?thesis by simp
qed

lemma code_points_of_utf8_ascii:
  "\<forall>u\<in>set us. u < 128 \<Longrightarrow> code_points_of_utf8 us = us"
  by (induction us) simp_all

lemma concat_utf16_ascii:
  "\<forall>u\<in>set us. u < 128 \<Longrightarrow> concat (map utf16_of_code_point us) = us"
  by (induction us) (simp_all add: utf16_of_code_point_def)

lemma utf8_decode_ascii:
  assumes "\<forall>c\<in>set bs. unat c < 128"
  shows "utf8_decode bs = map ucast bs"
proof -
  have a: "\<forall>u\<in>set (map unat bs). u < 128" using assms by simp
  have "utf8_decode bs = map of_nat (map unat bs)"
    unfolding utf8_decode_def
    by (simp only: code_points_of_utf8_ascii [OF a] concat_utf16_ascii [OF a])
  then show ?thesis by simp
qed

lemma utf8_roundtrip_ascii:
  assumes "\<forall>c\<in>set s. unat c < 128"
  shows "utf8_decode (utf8_encode s) = s"
proof -
  have "\<forall>b\<in>set (map ucast s :: Buffer). unat b < 128"
    using assms by (auto simp: unat_ucast_byte)
  then have "utf8_decode (map ucast s) = map ucast (map ucast s :: Buffer)"
    by (rule utf8_decode_ascii)
  also have "\<dots> = s"
    using assms by (auto simp: ucast_byte_unit intro!: map_idI)
  finally show ?thesis using assms by (simp add: utf8_encode_ascii)
qed

section \<open>Hexadecimal digits are lowercase\<close>

lemma hex_digits: "map hex_digit [0..<16] = ascii ''0123456789abcdef''"
  by code_simp

lemma hex_digit_lower: "n < 16 \<Longrightarrow> hex_digit n \<in> set (ascii ''0123456789abcdef'')"
  unfolding hex_digits [symmetric] by simp

lemma hex_encode_lower: "c \<in> set (hex_encode bs) \<Longrightarrow> c \<in> set (ascii ''0123456789abcdef'')"
proof (induction bs)
  case Nil
  then show ?case by simp
next
  case (Cons b bs)
  from Cons nibbles [of b] hex_digit_lower [of "unat b div 16"] hex_digit_lower [of "unat b mod 16"]
  show ?case by auto
qed

section \<open>UTF-8 represents well-formed strings exactly\<close>

lemma decode_one_byte:
  "c < 0x80 \<Longrightarrow> code_points_of_utf8 (c # rest) = c # code_points_of_utf8 rest"
  by simp

lemma decode_two_bytes:
  assumes "0x80 \<le> c" "c < 0x800"
  shows "code_points_of_utf8 ((0xC0 + c div 64) # (0x80 + c mod 64) # rest) =
         c # code_points_of_utf8 rest"
proof -
  have a: "2 \<le> c div 64" "c div 64 \<le> 31" "c mod 64 < 64"
    using assms by simp_all
  have v: "c div 64 * 64 + c mod 64 = c"
    by simp
  from a v show ?thesis
    by (simp add: is_continuation_def)
qed

lemma decode_three_bytes:
  assumes "0x800 \<le> c" "c < 0x10000" "\<not> is_surrogate c"
  shows "code_points_of_utf8
           ((0xE0 + c div 4096) # (0x80 + (c div 64) mod 64) # (0x80 + c mod 64) # rest) =
         c # code_points_of_utf8 rest"
proof -
  define q where "q = c div 64"
  have c: "c = q * 64 + c mod 64"
    by (simp add: q_def)
  have d: "c div 4096 = q div 64"
    by (simp add: q_def div_mult2_eq [symmetric])
  have q: "32 \<le> q" "q < 1024"
    using assms(1,2) by (simp_all add: q_def less_mult_imp_div_less)
  have qq: "q = q div 64 * 64 + q mod 64"
    by simp
  have a: "q div 64 \<le> 15" "q mod 64 < 64" "c mod 64 < 64"
    using q by simp_all
  have lo: "32 \<le> q mod 64" if "q div 64 = 0"
    using that q(1) qq by linarith
  have "q < 864 \<or> 896 \<le> q"
    using assms(3) unfolding is_surrogate_def q_def by linarith
  then have hi: "q mod 64 \<le> 31" if "q div 64 = 13"
    using that qq by linarith
  have v: "q div 64 * 4096 + q mod 64 * 64 + c mod 64 = c"
    using c qq by linarith
  have s: "second_byte_ok (0xE0 + q div 64) (0x80 + q mod 64)"
    using a lo hi by (auto simp: second_byte_ok_def)
  from a v s show ?thesis
    unfolding d q_def [symmetric] by (simp add: is_continuation_def)
qed

lemma decode_four_bytes:
  assumes "0x10000 \<le> c" "c < 0x110000"
  shows "code_points_of_utf8
           ((0xF0 + c div 262144) # (0x80 + (c div 4096) mod 64)
            # (0x80 + (c div 64) mod 64) # (0x80 + c mod 64) # rest) =
         c # code_points_of_utf8 rest"
proof -
  define q where "q = c div 64"
  define r where "r = q div 64"
  have c: "c = q * 64 + c mod 64"
    by (simp add: q_def)
  have d: "c div 4096 = r" "c div 262144 = r div 64"
    by (simp_all add: r_def q_def div_mult2_eq [symmetric])
  have qq: "q = r * 64 + q mod 64"
    by (simp add: r_def)
  have rr: "r = r div 64 * 64 + r mod 64"
    by simp
  have "1024 \<le> q" "q < 17408"
    using assms by (simp_all add: q_def less_mult_imp_div_less)
  then have r: "16 \<le> r" "r < 272"
    by (simp_all add: r_def less_mult_imp_div_less)
  have "r mod 64 < 64" "q mod 64 < 64" "c mod 64 < 64"
    by simp_all
  then have b: "r mod 64 \<le> 63" "q mod 64 \<le> 63" "c mod 64 \<le> 63"
    by linarith+
  have a: "r div 64 \<le> 4"
    using r by simp
  have lo: "16 \<le> r mod 64" if "r div 64 = 0"
    using that r(1) rr by linarith
  have hi: "r mod 64 \<le> 15" if "r div 64 = 4"
    using that r(2) rr by linarith
  have v: "r div 64 * 262144 + r mod 64 * 4096 + q mod 64 * 64 + c mod 64 = c"
    using c qq rr by linarith
  have s: "second_byte_ok (0xF0 + r div 64) (0x80 + r mod 64)"
    using a lo hi by (auto simp: second_byte_ok_def)
  from a b v s show ?thesis
    unfolding d q_def [symmetric] by (simp add: is_continuation_def)
qed

lemma decode_encoded_code_point:
  assumes "c < 0x110000" "\<not> is_surrogate c"
  shows "code_points_of_utf8 (utf8_of_code_point c @ rest) = c # code_points_of_utf8 rest"
proof -
  consider "c < 0x80" | "0x80 \<le> c" "c < 0x800" | "0x800 \<le> c" "c < 0x10000"
    | "0x10000 \<le> c"
    by linarith
  then show ?thesis
  proof cases
    case 1
    then show ?thesis by (simp add: utf8_of_code_point_def)
  next
    case 2
    then show ?thesis
      using decode_two_bytes [OF 2] by (simp add: utf8_of_code_point_def)
  next
    case 3
    then show ?thesis
      using decode_three_bytes [OF 3 assms(2)] by (simp add: utf8_of_code_point_def)
  next
    case 4
    then show ?thesis
      using decode_four_bytes [OF 4 assms(1)] by (simp add: utf8_of_code_point_def)
  qed
qed

lemma decode_encoded_code_points:
  "\<forall>c\<in>set cs. c < 0x110000 \<and> \<not> is_surrogate c \<Longrightarrow>
   code_points_of_utf8 (concat (map utf8_of_code_point cs)) = cs"
  by (induction cs) (simp_all add: decode_encoded_code_point)

lemma code_points_of_utf16_scalar:
  "\<forall>u\<in>set us. u < 65536 \<Longrightarrow>
   \<forall>c\<in>set (code_points_of_utf16 us). c < 0x110000 \<and> \<not> is_surrogate c"
proof (induction us rule: code_points_of_utf16.induct)
  case 1
  show ?case by simp
next
  case (2 u)
  then show ?case by (simp add: is_surrogate_def)
next
  case (3 h l us)
  show ?case
  proof (cases "is_high_surrogate h \<and> is_low_surrogate l")
    case True
    then have "0x10000 + (h - 0xD800) * 1024 + (l - 0xDC00) < 0x110000"
      unfolding is_high_surrogate_def is_low_surrogate_def by linarith
    moreover have "\<forall>c\<in>set (code_points_of_utf16 us). c < 0x110000 \<and> \<not> is_surrogate c"
      using 3(1) [OF True] 3(3) by simp
    ultimately show ?thesis
      using True by (simp add: is_surrogate_def)
  next
    case False
    have "\<forall>c\<in>set (code_points_of_utf16 (l # us)). c < 0x110000 \<and> \<not> is_surrogate c"
      using 3(2) [OF False] 3(3) by simp
    moreover have "h < 0x110000"
      using 3(3) by simp
    ultimately show ?thesis
      using False by (auto simp: is_surrogate_def)
  qed
qed

lemma utf16_of_code_points:
  "well_formed_utf16 us \<Longrightarrow> \<forall>u\<in>set us. u < 65536 \<Longrightarrow>
   concat (map utf16_of_code_point (code_points_of_utf16 us)) = us"
proof (induction us rule: code_points_of_utf16.induct)
  case 1
  show ?case by simp
next
  case (2 u)
  then show ?case
    by (simp add: utf16_of_code_point_def)
next
  case (3 h l us)
  show ?case
  proof (cases "is_high_surrogate h \<and> is_low_surrogate l")
    case True
    define x where "x = (h - 0xD800) * 1024 + (l - 0xDC00)"
    have l: "l - 0xDC00 < 1024" "0xDC00 \<le> l" "0xD800 \<le> h"
      using True unfolding is_high_surrogate_def is_low_surrogate_def by linarith+
    have dm: "(a * 1024 + b) div 1024 = a \<and> (a * 1024 + b) mod 1024 = b"
      if "b < 1024" for a b :: nat
      using that by simp
    have "x div 1024 = h - 0xD800" "x mod 1024 = l - 0xDC00"
      unfolding x_def using dm [OF l(1), of "h - 0xD800"] by blast+
    with l have "utf16_of_code_point (0x10000 + x) = [h, l]"
      by (simp add: utf16_of_code_point_def)
    moreover have "concat (map utf16_of_code_point (code_points_of_utf16 us)) = us"
      using 3(1) [OF True] 3(3,4) True by simp
    ultimately show ?thesis
      using True by (simp add: x_def add.assoc)
  next
    case False
    have "\<not> is_surrogate h" "well_formed_utf16 (l # us)"
      using 3(3) False by simp_all
    moreover have "utf16_of_code_point h = [h]"
      using 3(4) by (simp add: utf16_of_code_point_def)
    moreover have "concat (map utf16_of_code_point (code_points_of_utf16 (l # us))) = l # us"
      using 3(2) [OF False] 3(4) calculation(2) by simp
    ultimately show ?thesis
      using False by auto
  qed
qed

lemma utf8_of_code_point_bytes:
  assumes "c < 0x110000"
  shows "\<forall>b\<in>set (utf8_of_code_point c). b < 256"
proof -
  have m: "x mod 64 < 128" for x :: nat
    using mod_less_divisor [of 64 x] by linarith
  from assms show ?thesis
    by (simp add: utf8_of_code_point_def less_mult_imp_div_less m)
qed

lemma map_unat_of_nat_byte:
  "\<forall>b\<in>set bs. b < 256 \<Longrightarrow> map unat (map of_nat bs :: Buffer) = bs"
  by (induction bs) (simp_all add: unat_of_nat_byte)

text \<open>UTF-8 represents every string without an unpaired surrogate exactly.\<close>

lemma utf8_roundtrip:
  assumes "well_formed s"
  shows "utf8_decode (utf8_encode s) = s"
proof -
  let ?cs = "code_points_of_utf16 (map unat s)"
  have u: "\<forall>u\<in>set (map unat s). u < 65536"
    using unat_unit_less by simp
  have sc: "\<forall>c\<in>set ?cs. c < 0x110000 \<and> \<not> is_surrogate c"
    using u by (rule code_points_of_utf16_scalar)
  then have "\<forall>b\<in>set (concat (map utf8_of_code_point ?cs)). b < 256"
    using utf8_of_code_point_bytes by auto
  then have "map unat (utf8_encode s) = concat (map utf8_of_code_point ?cs)"
    unfolding utf8_encode_def by (rule map_unat_of_nat_byte)
  then have "utf8_decode (utf8_encode s) = map of_nat (concat (map utf16_of_code_point ?cs))"
    unfolding utf8_decode_def by (simp only: decode_encoded_code_points [OF sc])
  also have "\<dots> = map of_nat (map unat s)"
    using assms u unfolding well_formed_def by (simp only: utf16_of_code_points)
  finally show ?thesis by (simp add: comp_def)
qed

section \<open>Splitting at the colon, on the bytes\<close>

lemma second_byte_ok_not_colon: "second_byte_ok b c \<Longrightarrow> c \<noteq> 58"
  by (auto simp: second_byte_ok_def split: if_splits)

lemma is_continuation_not_colon: "is_continuation c \<Longrightarrow> c \<noteq> 58"
  by (simp add: is_continuation_def)

lemma three_byte_not_colon:
  assumes "0xE0 \<le> b" "second_byte_ok b c1"
  shows "(b - 224) * 4096 + (c1 - 128) * 64 + x \<noteq> 58"
proof (cases "b = 0xE0")
  case True
  with assms(2) have "160 \<le> c1"
    by (simp add: second_byte_ok_def)
  then have "32 \<le> c1 - 128"
    by linarith
  then have "2048 \<le> (c1 - 128) * 64"
    by simp
  then show ?thesis by linarith
next
  case False
  with assms(1) have "1 \<le> b - 224"
    by simp
  then have "4096 \<le> (b - 224) * 4096"
    by simp
  then show ?thesis by linarith
qed

lemma four_byte_not_colon:
  assumes "0xF0 \<le> b" "second_byte_ok b c1"
  shows "(b - 240) * 262144 + (c1 - 128) * 4096 + y + x \<noteq> 58"
proof (cases "b = 0xF0")
  case True
  with assms(2) have "144 \<le> c1"
    by (simp add: second_byte_ok_def)
  then have "16 \<le> c1 - 128"
    by linarith
  then have "65536 \<le> (c1 - 128) * 4096"
    by simp
  then show ?thesis by linarith
next
  case False
  with assms(1) have "1 \<le> b - 240"
    by simp
  then have "262144 \<le> (b - 240) * 262144"
    by simp
  then show ?thesis by linarith
qed

text \<open>
  The text up to the first colon is the decoding of the bytes up to the first colon
  byte: a colon ends every unfinished sequence and decodes as itself.
\<close>

lemma code_points_takeWhile:
  "takeWhile (\<lambda>c. c \<noteq> 58) (code_points_of_utf8 bs) =
   code_points_of_utf8 (takeWhile (\<lambda>b. b \<noteq> 58) bs)"
proof (induction "length bs" arbitrary: bs rule: less_induct)
  case less
  let ?T = "takeWhile (\<lambda>b. b \<noteq> (58 :: nat))"
  let ?P = code_points_of_utf8
  have ih: "?T (?P xs) = ?P (?T xs)" if "length xs < length bs" for xs
    using less [OF that] .
  show ?case
  proof (cases bs)
    case Nil
    then show ?thesis by simp
  next
    case (Cons b tl)
    have iht: "?T (?P xs) = ?P (?T xs)" if "length xs \<le> length tl" for xs
      using ih [of xs] that Cons by simp
    consider (one) "b < 0x80" | (two) "0xC2 \<le> b" "b \<le> 0xDF" | (three) "0xE0 \<le> b" "b \<le> 0xEF"
      | (four) "0xF0 \<le> b" "b \<le> 0xF4"
      | (low) "0x80 \<le> b" "b < 0xC2" | (high) "0xF4 < b"
      by linarith
    then show ?thesis
    proof cases
      case one
      then show ?thesis
        unfolding Cons using iht [of tl] by simp
    next
      case low
      then show ?thesis
        unfolding Cons using iht [of tl] by simp
    next
      case high
      then show ?thesis
        unfolding Cons using iht [of tl] by simp
    next
      case two
      show ?thesis
      proof (cases tl)
        case Nil
        with two show ?thesis unfolding Cons by simp
      next
        case (Cons c1 r1)
        show ?thesis
        proof (cases "is_continuation c1")
          case True
          with two is_continuation_not_colon [OF True] iht [of r1] show ?thesis
            unfolding \<open>bs = b # tl\<close> Cons by simp
        next
          case False
          with two iht [of tl] show ?thesis
            unfolding \<open>bs = b # tl\<close> Cons by simp
        qed
      qed
    next
      case three
      show ?thesis
      proof (cases tl)
        case Nil
        with three show ?thesis unfolding Cons by simp
      next
        case c1: (Cons c1 r1)
        show ?thesis
        proof (cases "second_byte_ok b c1")
          case False
          with three iht [of tl] show ?thesis
            unfolding \<open>bs = b # tl\<close> c1 by simp
        next
          case ok: True
          note n1 = second_byte_ok_not_colon [OF ok]
          show ?thesis
          proof (cases r1)
            case Nil
            with three ok n1 show ?thesis
              unfolding \<open>bs = b # tl\<close> c1 by simp
          next
            case c2: (Cons c2 r2)
            show ?thesis
            proof (cases "is_continuation c2")
              case True
              with three ok n1 is_continuation_not_colon [OF True] iht [of r2]
                three_byte_not_colon [OF three(1) ok, of "c2 - 128"]
              show ?thesis
                unfolding \<open>bs = b # tl\<close> c1 c2 by simp
            next
              case False
              with three ok n1 iht [of r1] show ?thesis
                unfolding \<open>bs = b # tl\<close> c1 c2 by simp
            qed
          qed
        qed
      qed
    next
      case four
      show ?thesis
      proof (cases tl)
        case Nil
        with four show ?thesis unfolding Cons by simp
      next
        case c1: (Cons c1 r1)
        show ?thesis
        proof (cases "second_byte_ok b c1")
          case False
          with four iht [of tl] show ?thesis
            unfolding \<open>bs = b # tl\<close> c1 by simp
        next
          case ok: True
          note n1 = second_byte_ok_not_colon [OF ok]
          show ?thesis
          proof (cases r1)
            case Nil
            with four ok n1 show ?thesis
              unfolding \<open>bs = b # tl\<close> c1 by simp
          next
            case c2: (Cons c2 r2)
            show ?thesis
            proof (cases "is_continuation c2")
              case False
              with four ok n1 iht [of r1] show ?thesis
                unfolding \<open>bs = b # tl\<close> c1 c2 by simp
            next
              case k2: True
              note n2 = is_continuation_not_colon [OF k2]
              show ?thesis
              proof (cases r2)
                case Nil
                with four ok n1 k2 n2 show ?thesis
                  unfolding \<open>bs = b # tl\<close> c1 c2 by simp
              next
                case c3: (Cons c3 r3)
                show ?thesis
                proof (cases "is_continuation c3")
                  case True
                  with four ok n1 k2 n2 is_continuation_not_colon [OF True] iht [of r3]
                    four_byte_not_colon [OF four(1) ok, of "(c2 - 128) * 64" "c3 - 128"]
                  show ?thesis
                    unfolding \<open>bs = b # tl\<close> c1 c2 c3 by simp
                next
                  case False
                  with four ok n1 k2 n2 iht [of r2] show ?thesis
                    unfolding \<open>bs = b # tl\<close> c1 c2 c3 by simp
                qed
              qed
            qed
          qed
        qed
      qed
    qed
  qed
qed

lemma two_byte_bound:
  "b \<le> 0xDF \<Longrightarrow> is_continuation c1 \<Longrightarrow> (b - 0xC0) * 64 + (c1 - 0x80) < 0x110000"
  unfolding is_continuation_def by linarith

lemma three_byte_bound:
  "b \<le> 0xEF \<Longrightarrow> second_byte_ok b c1 \<Longrightarrow> is_continuation c2 \<Longrightarrow>
   (b - 0xE0) * 4096 + (c1 - 0x80) * 64 + (c2 - 0x80) < 0x110000"
proof -
  assume "b \<le> 0xEF" "second_byte_ok b c1" "is_continuation c2"
  then have "b - 0xE0 \<le> 15" "c1 - 0x80 \<le> 63" "c2 - 0x80 \<le> 63"
    by (auto simp: second_byte_ok_def is_continuation_def split: if_splits)
  then have "(b - 0xE0) * 4096 \<le> 15 * 4096" "(c1 - 0x80) * 64 \<le> 63 * 64"
    by simp_all
  with \<open>c2 - 0x80 \<le> 63\<close> show ?thesis by linarith
qed

lemma four_byte_bound:
  assumes "0xF0 \<le> b" "b \<le> 0xF4" "second_byte_ok b c1" "is_continuation c2" "is_continuation c3"
  shows "(b - 0xF0) * 262144 + (c1 - 0x80) * 4096 + (c2 - 0x80) * 64 + (c3 - 0x80) < 0x110000"
proof -
  have r: "c2 - 0x80 \<le> 63" "c3 - 0x80 \<le> 63"
    using assms(4,5) unfolding is_continuation_def by linarith+
  then have r2: "(c2 - 0x80) * 64 \<le> 63 * 64"
    by simp
  show ?thesis
  proof (cases "b = 0xF4")
    case True
    with assms(3) have "c1 \<le> 0x8F"
      by (simp add: second_byte_ok_def)
    then have "c1 - 0x80 \<le> 15"
      by linarith
    then have "(c1 - 0x80) * 4096 \<le> 15 * 4096"
      by simp
    with True r r2 show ?thesis by simp
  next
    case False
    with assms(2) have "b - 0xF0 \<le> 3"
      by simp
    then have "(b - 0xF0) * 262144 \<le> 3 * 262144"
      by simp
    moreover from assms(3) have "c1 - 0x80 \<le> 63"
      by (auto simp: second_byte_ok_def split: if_splits)
    then have "(c1 - 0x80) * 4096 \<le> 63 * 4096"
      by simp
    ultimately show ?thesis
      using r r2 by linarith
  qed
qed

lemma code_points_of_utf8_bound: "\<forall>c\<in>set (code_points_of_utf8 bs). c < 0x110000"
proof (induction bs rule: code_points_of_utf8.induct)
  case 1
  show ?case by simp
next
  case (2 b bs)
  then show ?case
    by (auto split: list.splits
        simp: two_byte_bound three_byte_bound four_byte_bound simp del: code_points_of_utf8.simps
        simp add: code_points_of_utf8.simps(2) [of b bs])
qed

lemma utf16_unit_not_colon:
  assumes "c < 0x110000" "c \<noteq> 58" "u \<in> set (utf16_of_code_point c)"
  shows "(of_nat u :: 16 word) \<noteq> colon"
proof -
  have "u < 65536 \<and> u \<noteq> 58"
  proof (cases "c < 0x10000")
    case True
    with assms show ?thesis
      by (simp add: utf16_of_code_point_def)
  next
    case False
    then have "(c - 0x10000) div 1024 < 1024"
      using assms(1) by (simp add: less_mult_imp_div_less)
    moreover have "(c - 0x10000) mod 1024 < 1024"
      by simp
    ultimately show ?thesis
      using False assms(3) by (auto simp: utf16_of_code_point_def)
  qed
  then have "unat (of_nat u :: 16 word) \<noteq> unat colon"
    by (simp add: unat_of_nat_unit colon_def)
  then show ?thesis by auto
qed

lemma utf16_takeWhile:
  "\<forall>c\<in>set cs. c < 0x110000 \<Longrightarrow>
   takeWhile (\<lambda>u. u \<noteq> colon) (map of_nat (concat (map utf16_of_code_point cs))) =
   map of_nat (concat (map utf16_of_code_point (takeWhile (\<lambda>c. c \<noteq> 58) cs)))"
proof (induction cs)
  case Nil
  show ?case by simp
next
  case (Cons c cs)
  show ?case
  proof (cases "c = 58")
    case True
    then show ?thesis
      by (simp add: utf16_of_code_point_def colon_def)
  next
    case False
    have "\<forall>u\<in>set (map of_nat (utf16_of_code_point c) :: jsstring). u \<noteq> colon"
      using utf16_unit_not_colon [of c] Cons.prems False by auto
    then have "takeWhile (\<lambda>u. u \<noteq> colon)
        (map of_nat (utf16_of_code_point c) @ map of_nat (concat (map utf16_of_code_point cs))) =
        map of_nat (utf16_of_code_point c)
        @ takeWhile (\<lambda>u. u \<noteq> colon) (map of_nat (concat (map utf16_of_code_point cs)))"
      by (intro takeWhile_append2) blast
    with False Cons show ?thesis
      by simp
  qed
qed

text \<open>
  The text before the first colon is the decoding of the bytes before the first colon
  byte, and a payload without a colon byte decodes to text without a colon.
\<close>

lemma utf8_decode_takeWhile:
  "takeWhile (\<lambda>c. c \<noteq> colon) (utf8_decode bs) = utf8_decode (takeWhile (\<lambda>b. b \<noteq> 0x3A) bs)"
proof -
  have "(\<lambda>b :: byte. unat b \<noteq> 58) = (\<lambda>b. b \<noteq> 0x3A)"
    by (simp add: fun_eq_iff word_unat_eq_iff)
  then have "map unat (takeWhile (\<lambda>b. b \<noteq> 0x3A) bs) = takeWhile (\<lambda>n. n \<noteq> 58) (map unat bs)"
    by (simp add: takeWhile_map comp_def)
  then show ?thesis
    unfolding utf8_decode_def
    by (simp only: utf16_takeWhile [OF code_points_of_utf8_bound] code_points_takeWhile)
qed

lemma utf8_decode_no_colon: "0x3A \<notin> set bs \<Longrightarrow> colon \<notin> set (utf8_decode bs)"
proof -
  assume "0x3A \<notin> set bs"
  then have "takeWhile (\<lambda>b. b \<noteq> 0x3A) bs = bs"
    by (auto simp: takeWhile_eq_all_conv)
  then have "takeWhile (\<lambda>c. c \<noteq> colon) (utf8_decode bs) = utf8_decode bs"
    unfolding utf8_decode_takeWhile by (rule arg_cong)
  then show ?thesis
    by (auto simp: takeWhile_eq_all_conv)
qed

section \<open>Facts about CBC mode\<close>

lemma aes256_okD:
  assumes "aes256_ok A" "length k = 32" "length b = 16"
  shows "length (encrypt_block A k b) = 16"
    and "length (decrypt_block A k b) = 16"
    and "decrypt_block A k (encrypt_block A k b) = b"
  using assms unfolding aes256_ok_def by blast+

lemma length_xor_bytes: "length (xor_bytes xs ys) = min (length xs) (length ys)"
  by (simp add: xor_bytes_def)

lemma xor_bytes_cancel: "length xs = length ys \<Longrightarrow> xor_bytes (xor_bytes xs ys) ys = xs"
proof (induction xs arbitrary: ys)
  case Nil
  then show ?case by (simp add: xor_bytes_def)
next
  case (Cons x xs)
  then obtain y ys' where ys: "ys = y # ys'" by (cases ys) auto
  have "(x XOR y) XOR y = x"
    by (simp add: xor.assoc)
  with Cons ys show ?case
    by (simp add: xor_bytes_def)
qed

lemma cbc_encrypt_short: "length xs < 16 \<Longrightarrow> cbc_encrypt A k c xs = []"
  by (simp add: cbc_encrypt.simps)

lemma cbc_encrypt_block:
  "16 \<le> length xs \<Longrightarrow>
   cbc_encrypt A k c xs =
     encrypt_block A k (xor_bytes (take 16 xs) c)
     @ cbc_encrypt A k (encrypt_block A k (xor_bytes (take 16 xs) c)) (drop 16 xs)"
  by (subst cbc_encrypt.simps) (simp add: Let_def)

lemma cbc_decrypt_short: "length ys < 16 \<Longrightarrow> cbc_decrypt A k c ys = []"
  by (simp add: cbc_decrypt.simps)

lemma cbc_decrypt_block:
  "16 \<le> length ys \<Longrightarrow>
   cbc_decrypt A k c ys =
     xor_bytes (decrypt_block A k (take 16 ys)) c @ cbc_decrypt A k (take 16 ys) (drop 16 ys)"
  by (subst cbc_decrypt.simps) simp

lemma length_first_block:
  assumes "aes256_ok A" "length k = 32" "length c = 16" "16 \<le> length xs"
  shows "length (encrypt_block A k (xor_bytes (take 16 xs) c)) = 16"
  using assms by (simp add: aes256_okD(1) length_xor_bytes)

lemma length_cbc_encrypt:
  "aes256_ok A \<Longrightarrow> length k = 32 \<Longrightarrow> length c = 16 \<Longrightarrow>
   length (cbc_encrypt A k c xs) = 16 * (length xs div 16)"
proof (induction "length xs" arbitrary: c xs rule: less_induct)
  case less
  show ?case
  proof (cases "length xs < 16")
    case True
    then show ?thesis by (simp add: cbc_encrypt_short)
  next
    case False
    let ?y = "encrypt_block A k (xor_bytes (take 16 xs) c)"
    from False have ge: "16 \<le> length xs" by simp
    have ly: "length ?y = 16"
      using less.prems ge by (rule length_first_block)
    have "length (cbc_encrypt A k ?y (drop 16 xs)) = 16 * (length (drop 16 xs) div 16)"
      using ge less.prems(1,2) ly by (intro less.hyps) simp_all
    moreover have "length xs div 16 = Suc ((length xs - 16) div 16)"
      using ge by (simp add: le_div_geq)
    ultimately show ?thesis
      using ge ly by (simp add: cbc_encrypt_block)
  qed
qed

lemma last_block_length:
  "length c = 16 \<Longrightarrow> length (last_block c ys) = 16"
  by (simp add: last_block_def)

lemma last_block_append:
  "16 \<le> length zs \<Longrightarrow> last_block c (ys @ zs) = last_block c' zs"
  by (simp add: last_block_def)

lemma cbc_encrypt_append:
  "aes256_ok A \<Longrightarrow> length k = 32 \<Longrightarrow> length c = 16 \<Longrightarrow> length xs mod 16 = 0 \<Longrightarrow>
   cbc_encrypt A k c (xs @ ys) =
     cbc_encrypt A k c xs @ cbc_encrypt A k (last_block c (cbc_encrypt A k c xs)) ys"
proof (induction "length xs" arbitrary: c xs rule: less_induct)
  case less
  show ?case
  proof (cases "xs = []")
    case True
    then show ?thesis by (simp add: cbc_encrypt_short last_block_def)
  next
    case False
    then have "0 < length xs" by simp
    with less.prems(4) have ge: "16 \<le> length xs"
      by presburger
    let ?y = "encrypt_block A k (xor_bytes (take 16 xs) c)"
    let ?r = "cbc_encrypt A k ?y (drop 16 xs)"
    have ly: "length ?y = 16"
      using less.prems(1-3) ge by (rule length_first_block)
    have m: "length (drop 16 xs) mod 16 = 0"
      using less.prems(4) ge by (simp add: le_mod_geq)
    have ih: "cbc_encrypt A k ?y (drop 16 xs @ ys) = ?r @ cbc_encrypt A k (last_block ?y ?r) ys"
      using ge less.prems(1,2) ly m by (intro less.hyps) simp_all
    have "length ?r = 16 * (length (drop 16 xs) div 16)"
      using less.prems(1,2) ly by (rule length_cbc_encrypt)
    then have "?r = [] \<or> 16 \<le> length ?r"
      by (cases "length (drop 16 xs) div 16") auto
    then have lb: "last_block c (?y @ ?r) = last_block ?y ?r"
      using ly by (auto simp: last_block_def)
    have "cbc_encrypt A k c (xs @ ys) = ?y @ cbc_encrypt A k ?y (drop 16 xs @ ys)"
      using ge by (simp add: cbc_encrypt_block)
    also have "\<dots> = (?y @ ?r) @ cbc_encrypt A k (last_block c (?y @ ?r)) ys"
      by (simp add: ih lb)
    also have "?y @ ?r = cbc_encrypt A k c xs"
      using ge by (simp add: cbc_encrypt_block)
    finally show ?thesis .
  qed
qed

lemma cbc_decrypt_append:
  "length ys mod 16 = 0 \<Longrightarrow>
   cbc_decrypt A k c (ys @ zs) = cbc_decrypt A k c ys @ cbc_decrypt A k (last_block c ys) zs"
proof (induction "length ys" arbitrary: c ys rule: less_induct)
  case less
  show ?case
  proof (cases "ys = []")
    case True
    then show ?thesis by (simp add: cbc_decrypt_short last_block_def)
  next
    case False
    then have "0 < length ys" by simp
    with less.prems have ge: "16 \<le> length ys"
      by presburger
    have m: "length (drop 16 ys) mod 16 = 0"
      using less.prems ge by (simp add: le_mod_geq)
    have ih: "cbc_decrypt A k (take 16 ys) (drop 16 ys @ zs) =
        cbc_decrypt A k (take 16 ys) (drop 16 ys)
        @ cbc_decrypt A k (last_block (take 16 ys) (drop 16 ys)) zs"
      using ge m by (intro less.hyps) simp_all
    have lb: "last_block (take 16 ys) (drop 16 ys) = last_block c ys"
    proof (cases "length ys < 32")
      case True
      with ge less.prems have "length ys = 16"
        by presburger
      then show ?thesis by (simp add: last_block_def)
    next
      case False
      then show ?thesis by (simp add: last_block_def)
    qed
    show ?thesis
      using ge by (simp add: cbc_decrypt_block [of "ys @ zs"] cbc_decrypt_block [of ys] ih lb)
  qed
qed

lemma cbc_roundtrip:
  "aes256_ok A \<Longrightarrow> length k = 32 \<Longrightarrow> length c = 16 \<Longrightarrow> length xs mod 16 = 0 \<Longrightarrow>
   cbc_decrypt A k c (cbc_encrypt A k c xs) = xs"
proof (induction "length xs" arbitrary: c xs rule: less_induct)
  case less
  show ?case
  proof (cases "xs = []")
    case True
    then show ?thesis by (simp add: cbc_encrypt_short cbc_decrypt_short)
  next
    case False
    then have "0 < length xs" by simp
    with less.prems(4) have ge: "16 \<le> length xs"
      by presburger
    let ?b = "xor_bytes (take 16 xs) c"
    let ?y = "encrypt_block A k ?b"
    let ?r = "cbc_encrypt A k ?y (drop 16 xs)"
    have lb: "length ?b = 16"
      using ge less.prems(3) by (simp add: length_xor_bytes)
    have ly: "length ?y = 16"
      using less.prems(1-3) ge by (rule length_first_block)
    have m: "length (drop 16 xs) mod 16 = 0"
      using less.prems(4) ge by (simp add: le_mod_geq)
    have ih: "cbc_decrypt A k ?y ?r = drop 16 xs"
      using ge less.prems(1,2) ly m by (intro less.hyps) simp_all
    have d: "decrypt_block A k ?y = ?b"
      using less.prems(1,2) lb by (rule aes256_okD(3))
    have x: "xor_bytes ?b c = take 16 xs"
      using ge less.prems(3) by (intro xor_bytes_cancel) simp
    have "cbc_decrypt A k c (?y @ ?r) = xor_bytes (decrypt_block A k ?y) c @ cbc_decrypt A k ?y ?r"
      using ly by (simp add: cbc_decrypt_block)
    also have "\<dots> = take 16 xs @ drop 16 xs"
      by (simp only: d x ih)
    finally show ?thesis
      using ge by (simp add: cbc_encrypt_block)
  qed
qed

section \<open>Facts about the cipher objects\<close>

lemma Cipher_update_fresh:
  "Cipher_update A \<lparr>cipher_key = k, chain = iv, pending = []\<rparr> d =
     (cbc_encrypt A k iv (take (length d div 16 * 16) d),
      \<lparr>cipher_key = k,
       chain = last_block iv (cbc_encrypt A k iv (take (length d div 16 * 16) d)),
       pending = drop (length d div 16 * 16) d\<rparr>)"
  by (simp add: Cipher_update_def Let_def)

lemma Cipher_output:
  assumes "aes256_ok A" "length k = 32" "length iv = 16"
    and c: "c = \<lparr>cipher_key = k, chain = iv, pending = []\<rparr>"
    and p: "p = 16 - length d mod 16"
  shows "fst (Cipher_update A c d) @ Cipher_final A (snd (Cipher_update A c d)) =
         cbc_encrypt A k iv (d @ replicate p (of_nat p))"
proof -
  let ?m = "length d div 16 * 16"
  let ?out = "cbc_encrypt A k iv (take ?m d)"
  have len: "length (drop ?m d) = length d mod 16"
    by (simp add: minus_mult_div_eq_mod mult.commute)
  have fin: "Cipher_final A (snd (Cipher_update A c d)) =
      cbc_encrypt A k (last_block iv ?out) (drop ?m d @ replicate p (of_nat p))"
    unfolding c Cipher_update_fresh Cipher_final_def using len p by (simp add: Let_def)
  have "length (take ?m d) mod 16 = 0"
    by (simp add: min_def) presburger
  with assms(1-3)
  have "cbc_encrypt A k iv (take ?m d @ (drop ?m d @ replicate p (of_nat p))) =
        ?out @ cbc_encrypt A k (last_block iv ?out) (drop ?m d @ replicate p (of_nat p))"
    by (rule cbc_encrypt_append)
  moreover have "take ?m d @ (drop ?m d @ replicate p (of_nat p)) = d @ replicate p (of_nat p)"
    by (simp flip: append_assoc)
  ultimately show ?thesis
    unfolding fin by (simp only: c Cipher_update_fresh fst_conv)
qed

lemma length_Cipher_output:
  assumes "aes256_ok A" "length k = 32" "length iv = 16"
    and c: "c = \<lparr>cipher_key = k, chain = iv, pending = []\<rparr>"
  shows "length (fst (Cipher_update A c d) @ Cipher_final A (snd (Cipher_update A c d))) =
         16 * (length d div 16 + 1)"
proof -
  let ?p = "16 - length d mod 16"
  have "(length d + ?p) div 16 = length d div 16 + 1"
    by presburger
  then show ?thesis
    using Cipher_output [OF assms refl, of d] length_cbc_encrypt [OF assms(1-3)]
    by simp
qed

lemma Decipher_update_fresh:
  assumes "ct \<noteq> []" "length ct mod 16 = 0"
  shows "Decipher_update A \<lparr>cipher_key = k, chain = iv, pending = []\<rparr> ct =
     (cbc_decrypt A k iv (take (length ct - 16) ct),
      \<lparr>cipher_key = k, chain = last_block iv (take (length ct - 16) ct),
       pending = drop (length ct - 16) ct\<rparr>)"
  using assms by (simp add: Decipher_update_def Let_def)

lemma Decipher_final_padded:
  assumes "length (pending c) = 16"
    and "xor_bytes (decrypt_block A (cipher_key c) (pending c)) (chain c) =
         r @ replicate p (of_nat p)"
    and "1 \<le> p" "p \<le> 16" "length r = 16 - p"
  shows "Decipher_final A c = Inr r"
proof -
  let ?blk = "r @ replicate p (of_nat p :: byte)"
  have u: "unat (of_nat p :: byte) = p"
    using assms(4) by (simp add: unat_of_nat_byte)
  have "\<not> 15 < length r" "15 - length r < p"
    using assms(3-5) by simp_all
  then have "?blk ! 15 = of_nat p"
    by (simp only: nth_append if_False nth_replicate)
  moreover have "drop (16 - p) ?blk = replicate p (of_nat p)"
    using assms(5) by simp
  moreover have "take (16 - p) ?blk = r"
    using assms(5) by simp
  ultimately show ?thesis
    using assms(1,3,4) u
    by (simp add: Decipher_final_def assms(2) Let_def list_all_iff del: of_nat_numeral)
qed

lemma Decipher_Cipher:
  assumes ok: "aes256_ok A" and k: "length k = 32" and iv: "length iv = 16"
    and c: "c = \<lparr>cipher_key = k, chain = iv, pending = []\<rparr>"
    and ct: "ct = fst (Cipher_update A c d) @ Cipher_final A (snd (Cipher_update A c d))"
  shows "Decipher_final A (snd (Decipher_update A c ct)) = Inr (drop (length d div 16 * 16) d)"
    and "fst (Decipher_update A c ct) = take (length d div 16 * 16) d"
proof -
  let ?p = "16 - length d mod 16"
  let ?pad = "replicate ?p (of_nat ?p :: byte)"
  let ?m = "length d div 16 * 16"
  have ct': "ct = cbc_encrypt A k iv (d @ ?pad)"
    unfolding ct by (rule Cipher_output [OF ok k iv c refl])
  have lct: "length ct = 16 * (length d div 16 + 1)"
    unfolding ct by (rule length_Cipher_output [OF ok k iv c])
  then have ne: "ct \<noteq> []" and md: "length ct mod 16 = 0"
    by auto
  have n: "length ct - 16 = ?m"
    using lct by simp
  have "length (d @ ?pad) mod 16 = 0"
    by simp presburger
  with ok k iv have rt: "cbc_decrypt A k iv ct = d @ ?pad"
    unfolding ct' by (rule cbc_roundtrip)
  have "length (take ?m ct) mod 16 = 0"
    using lct by simp
  then have "cbc_decrypt A k iv (take ?m ct @ drop ?m ct) =
      cbc_decrypt A k iv (take ?m ct) @ cbc_decrypt A k (last_block iv (take ?m ct)) (drop ?m ct)"
    by (rule cbc_decrypt_append)
  then have split: "cbc_decrypt A k iv (take ?m ct)
      @ cbc_decrypt A k (last_block iv (take ?m ct)) (drop ?m ct) = d @ ?pad"
    using rt by simp
  have f: "fst (Decipher_update A c ct) = cbc_decrypt A k iv (take ?m ct)"
    and s: "snd (Decipher_update A c ct) =
       \<lparr>cipher_key = k, chain = last_block iv (take ?m ct), pending = drop ?m ct\<rparr>"
    unfolding c Decipher_update_fresh [OF ne md] n by simp_all
  have lp: "length (drop ?m ct) = 16"
    using lct by simp
  then have one: "cbc_decrypt A k (last_block iv (take ?m ct)) (drop ?m ct) =
      xor_bytes (decrypt_block A k (drop ?m ct)) (last_block iv (take ?m ct))"
    by (simp add: cbc_decrypt_block cbc_decrypt_short)
  have "length (decrypt_block A k (drop ?m ct)) = 16"
    using ok k lp by (rule aes256_okD(2))
  then have l1: "length (cbc_decrypt A k (last_block iv (take ?m ct)) (drop ?m ct)) = 16"
    unfolding one using iv by (simp add: length_xor_bytes last_block_length)
  have l0: "length (cbc_decrypt A k iv (take ?m ct)) = ?m"
  proof -
    have "length (cbc_decrypt A k iv (take ?m ct)) + 16 = length (d @ ?pad)"
      using arg_cong [OF split, of length] l1 by simp
    also have "\<dots> = ?m + 16"
      by simp presburger
    finally show ?thesis by simp
  qed
  from split l0 have a: "cbc_decrypt A k iv (take ?m ct) = take ?m (d @ ?pad)"
    and b: "cbc_decrypt A k (last_block iv (take ?m ct)) (drop ?m ct) = drop ?m (d @ ?pad)"
    by (metis append_eq_conv_conj)+
  have mle: "?m \<le> length d"
    by simp
  show "fst (Decipher_update A c ct) = take (length d div 16 * 16) d"
    unfolding f a using mle by simp
  have ld: "length (drop ?m d) = 16 - ?p"
    by simp presburger
  have "xor_bytes (decrypt_block A k (drop ?m ct)) (last_block iv (take ?m ct)) = drop ?m d @ ?pad"
    using b mle unfolding one by simp
  then show "Decipher_final A (snd (Decipher_update A c ct)) = Inr (drop (length d div 16 * 16) d)"
    unfolding s using lp ld
    by (intro Decipher_final_padded [where p = ?p]) simp_all
qed

section \<open>Deciphering any ciphertext\<close>

lemma length_cbc_decrypt:
  "aes256_ok A \<Longrightarrow> length k = 32 \<Longrightarrow> length c = 16 \<Longrightarrow>
   length (cbc_decrypt A k c ys) = 16 * (length ys div 16)"
proof (induction "length ys" arbitrary: c ys rule: less_induct)
  case less
  show ?case
  proof (cases "length ys < 16")
    case True
    then show ?thesis by (simp add: cbc_decrypt_short)
  next
    case False
    then have ge: "16 \<le> length ys" by simp
    have lt: "length (take 16 ys) = 16"
      using ge by simp
    have lb: "length (xor_bytes (decrypt_block A k (take 16 ys)) c) = 16"
      using aes256_okD(2) [OF less.prems(1,2) lt] less.prems(3) by (simp add: length_xor_bytes)
    have "length (cbc_decrypt A k (take 16 ys) (drop 16 ys)) = 16 * (length (drop 16 ys) div 16)"
      using ge less.prems(1,2) lt by (intro less.hyps) simp_all
    moreover have "length ys div 16 = Suc ((length ys - 16) div 16)"
      using ge by (simp add: le_div_geq)
    ultimately show ?thesis
      using ge lb by (simp add: cbc_decrypt_block)
  qed
qed

lemma Decipher_wrong_length:
  assumes "ct = [] \<or> length ct mod 16 \<noteq> 0"
  shows "Decipher_final A (snd (Decipher_update A \<lparr>cipher_key = k, chain = iv, pending = []\<rparr> ct)) =
         Inl ERR_OSSL_WRONG_FINAL_BLOCK_LENGTH"
proof -
  have "length (drop (length ct div 16 * 16) ct) = length ct mod 16"
    by (simp add: minus_mult_div_eq_mod mult.commute)
  moreover have "length ct mod 16 \<noteq> 16"
    using mod_less_divisor [of 16 "length ct"] by linarith
  ultimately show ?thesis
    using assms by (auto simp: Decipher_final_def Decipher_update_def Let_def)
qed

lemma Decipher_whole_blocks:
  assumes ok: "aes256_ok A" and k: "length k = 32" and iv: "length iv = 16"
    and ne: "ct \<noteq> []" and md: "length ct mod 16 = 0"
    and c: "c = \<lparr>cipher_key = k, chain = iv, pending = []\<rparr>"
    and pt: "pt = cbc_decrypt A k iv ct"
    and n: "n = unat (last pt)"
  shows "(case Decipher_final A (snd (Decipher_update A c ct)) of
            Inl e \<Rightarrow> Inl e
          | Inr fin \<Rightarrow> Inr (fst (Decipher_update A c ct) @ fin)) =
         (if n = 0 \<or> 16 < n \<or> \<not> list_all (\<lambda>b. unat b = n) (drop (length pt - n) pt)
          then Inl ERR_OSSL_BAD_DECRYPT
          else Inr (take (length pt - n) pt))"
proof -
  let ?m = "length ct - 16"
  let ?out = "cbc_decrypt A k iv (take ?m ct)"
  let ?ch = "last_block iv (take ?m ct)"
  let ?p = "xor_bytes (decrypt_block A k (drop ?m ct)) ?ch"
  from ne md have ge: "16 \<le> length ct"
    by (cases ct) (auto simp: mod_Suc split: if_splits)
  have f: "fst (Decipher_update A c ct) = ?out"
    and s: "snd (Decipher_update A c ct) =
       \<lparr>cipher_key = k, chain = ?ch, pending = drop ?m ct\<rparr>"
    unfolding c Decipher_update_fresh [OF ne md] by simp_all
  have lp: "length (drop ?m ct) = 16"
    using ge by simp
  have lch: "length ?ch = 16"
    using iv by (rule last_block_length)
  have one: "cbc_decrypt A k ?ch (drop ?m ct) = ?p"
    using lp by (simp add: cbc_decrypt_block cbc_decrypt_short)
  have lpp: "length ?p = 16"
    using aes256_okD(2) [OF ok k lp] lch by (simp add: length_xor_bytes)
  have mm: "length (take ?m ct) mod 16 = 0"
    using md ge by (simp add: le_mod_geq)
  have "cbc_decrypt A k iv (take ?m ct @ drop ?m ct) = ?out @ cbc_decrypt A k ?ch (drop ?m ct)"
    using mm by (rule cbc_decrypt_append)
  then have split: "pt = ?out @ ?p"
    unfolding pt one by simp
  have lo: "length ?out = ?m"
    using length_cbc_decrypt [OF ok k iv, of "take ?m ct"] mm ge by simp presburger
  have lpt: "length pt = ?m + 16"
    unfolding split using lo lpp by simp
  have pne: "?p \<noteq> []"
    using lpp by auto
  have "last pt = last ?p"
    unfolding split using pne by simp
  also have "\<dots> = ?p ! 15"
    using lpp by (simp only: last_conv_nth [OF pne]) simp
  finally have last: "last pt = ?p ! 15" .
  have dr: "drop (length pt - n) pt = drop (16 - n) ?p" if "n \<le> 16"
    unfolding lpt unfolding split using lo that by simp
  have tk: "take (length pt - n) pt = ?out @ take (16 - n) ?p" if "n \<le> 16"
    unfolding lpt unfolding split using lo that by simp
  show ?thesis
    unfolding f s Decipher_final_def using lp n [unfolded last] dr tk
    by (auto simp: Let_def)
qed

section \<open>Facts about the codec\<close>

lemma hex_encode_append: "hex_encode (xs @ ys) = hex_encode xs @ hex_encode ys"
  by (induction xs) simp_all

lemma PNPEncryption_new_fields:
  "algorithm (fst (PNPEncryption_new g)) = ''aes-256-cbc''"
  "key (fst (PNPEncryption_new g)) = fst (randomBytes 32 g)"
  "length (key (fst (PNPEncryption_new g))) = 32"
  "snd (PNPEncryption_new g) = snd (randomBytes 32 g)"
  by (simp_all add: PNPEncryption_new_def randomBytes_def)

lemma createCipheriv_ok:
  "length k = 32 \<Longrightarrow> length iv = 16 \<Longrightarrow>
   createCipheriv ''aes-256-cbc'' k iv = Inr \<lparr>cipher_key = k, chain = iv, pending = []\<rparr>"
  by (simp add: createCipheriv_def)

text \<open>The ciphertext of a message: padded, then encrypted in CBC mode.\<close>

lemma encrypt_eq:
  assumes ok: "aes256_ok A" and alg: "algorithm this = ''aes-256-cbc''"
    and k: "length (key this) = 32"
    and iv: "iv = fst (randomBytes 16 g)"
    and p: "p = 16 - length (utf8_encode data) mod 16"
  shows "encrypt A this data g =
    (Inr (utf8_encode
       (hex_encode iv @ [colon]
        @ hex_encode (cbc_encrypt A (key this) iv
            (utf8_encode data @ replicate p (of_nat p))))),
     snd (randomBytes 16 g))"
proof -
  have l: "length iv = 16"
    unfolding iv by (rule length_randomBytes)
  let ?c = "\<lparr>cipher_key = key this, chain = iv, pending = []\<rparr>"
  have "hex_encode (fst (Cipher_update A ?c (utf8_encode data)))
        @ hex_encode (Cipher_final A (snd (Cipher_update A ?c (utf8_encode data)))) =
        hex_encode (cbc_encrypt A (key this) iv (utf8_encode data @ replicate p (of_nat p)))"
    using Cipher_output [OF ok k l refl p] by (simp flip: hex_encode_append)
  then show ?thesis
    using l by (simp add: encrypt_def alg createCipheriv_ok [OF k] iv [symmetric]
        case_prod_beta Let_def)
qed

lemma ascii_payload:
  "\<forall>c\<in>set (hex_encode xs @ [colon] @ hex_encode ys). unat c < 128"
  using hex_encode_ascii by (auto simp: colon_def)

lemma length_utf8_encode_ascii:
  "\<forall>c\<in>set s. unat c < 128 \<Longrightarrow> length (utf8_encode s) = length s"
  by (simp add: utf8_encode_ascii)

lemma payload_length:
  assumes ok: "aes256_ok A" and alg: "algorithm this = ''aes-256-cbc''"
    and k: "length (key this) = 32"
  shows "\<exists>payload. fst (encrypt A this data g) = Inr payload
     \<and> length payload = 33 + 32 * (length (utf8_encode data) div 16 + 1)"
proof -
  let ?iv = "fst (randomBytes 16 g)"
  let ?p = "16 - length (utf8_encode data) mod 16"
  let ?ct = "cbc_encrypt A (key this) ?iv (utf8_encode data @ replicate ?p (of_nat ?p))"
  have l: "length ?iv = 16" by (rule length_randomBytes)
  have "(length (utf8_encode data) + ?p) div 16 = length (utf8_encode data) div 16 + 1"
    by presburger
  then have "length ?ct = 16 * (length (utf8_encode data) div 16 + 1)"
    using length_cbc_encrypt [OF ok k l] by simp
  moreover have "length (utf8_encode (hex_encode ?iv @ [colon] @ hex_encode ?ct)) =
      length (hex_encode ?iv @ [colon] @ hex_encode ?ct)"
    by (rule length_utf8_encode_ascii [OF ascii_payload])
  ultimately have "length (utf8_encode (hex_encode ?iv @ [colon] @ hex_encode ?ct)) =
     33 + 32 * (length (utf8_encode data) div 16 + 1)"
    using l by (simp add: length_hex_encode)
  then show ?thesis
    by (simp add: encrypt_eq [OF ok alg k refl refl])
qed

section \<open>The stand-in cipher and the length of a payload\<close>

lemma map2_add_sub: "length xs = length ys \<Longrightarrow> map2 (-) (map2 (+) xs ys) ys = (xs :: byte list)"
proof (induction xs arbitrary: ys)
  case Nil
  then show ?case by simp
next
  case (Cons x xs)
  then show ?case by (cases ys) auto
qed

lemma stand_in_cipher_ok: "aes256_ok stand_in_cipher"
  by (simp add: aes256_ok_def stand_in_cipher_def map2_add_sub)

lemma block_cipher_ok: "aes256_ok (Rep_block_cipher C)"
  using Rep_block_cipher [of C] by simp

text \<open>
  Claim C10. In the codec that draws its own key, the length of the payload that
  \<open>encrypt\<close> returns depends on the length of the plaintext's UTF-8 encoding only: for a
  plaintext of \<open>n\<close> bytes the payload has 33 + 32 * (n div 16 + 1) bytes, so two
  plaintexts with encodings of the same length give payloads of the same length.
\<close>

theorem encrypt_payload_length:
  assumes "aes256_ok A" and "this = fst (PNPEncryption_new g0)"
  shows "\<exists>payload.
      fst (encrypt A this data g) = Inr payload
      \<and> length payload = 33 + 32 * (length (utf8_encode data) div 16 + 1)
      \<and> (\<forall>data' g'. length (utf8_encode data') = length (utf8_encode data) \<longrightarrow>
            (\<exists>payload'. fst (encrypt A this data' g') = Inr payload'
               \<and> length payload' = length payload))"
proof -
  have alg: "algorithm this = ''aes-256-cbc''" and k: "length (key this) = 32"
    unfolding assms(2) by (rule PNPEncryption_new_fields)+
  from payload_length [OF assms(1) alg k, of data g] obtain payload where
    p: "fst (encrypt A this data g) = Inr payload"
       "length payload = 33 + 32 * (length (utf8_encode data) div 16 + 1)"
    by blast
  have "\<exists>payload'. fst (encrypt A this data' g') = Inr payload'
      \<and> length payload' = length payload"
    if "length (utf8_encode data') = length (utf8_encode data)" for data' g'
    using payload_length [OF assms(1) alg k, of data' g'] that p(2) by auto
  with p show ?thesis by blast
qed

theorem encrypt_payload_length_witness:
  "\<exists>payload.
      fst (encrypt stand_in_cipher (fst (PNPEncryption_new example_entropy))
             (ascii ''hello'') (snd (PNPEncryption_new example_entropy))) = Inr payload
      \<and> length payload = 65"
proof -
  have "length (utf8_encode (ascii ''hello'')) = 5"
    by (simp add: utf8_encode_ascii ascii_def)
  with encrypt_payload_length [OF stand_in_cipher_ok refl, of example_entropy "ascii ''hello''"
      "snd (PNPEncryption_new example_entropy)"]
  show ?thesis by auto
qed

section \<open>How decrypt reads a payload\<close>

lemma js_split_not_Nil: "js_split s \<noteq> []"
  by (induction s) (auto split: list.splits)

lemma hd_js_split: "hd (js_split s) = takeWhile (\<lambda>c. c \<noteq> colon) s"
  by (induction s) (auto split: list.splits simp: js_split_not_Nil)

lemma js_split_no_colon: "colon \<notin> set s \<Longrightarrow> js_split s = [s]"
  by (induction s) auto

lemma js_split_colon:
  "colon \<notin> set a \<Longrightarrow> js_split (a @ colon # b) = a # js_split b"
  by (induction a) auto

lemma js_join_split: "js_join (js_split s) = s"
proof (induction s)
  case Nil
  show ?case by simp
next
  case (Cons c s)
  obtain p ps where ps: "js_split s = p # ps"
    using js_split_not_Nil [of s] by (cases "js_split s") auto
  with Cons show ?case
    by (cases ps) auto
qed

lemma js_join_tl_split:
  "js_join (tl (js_split s)) = tl (dropWhile (\<lambda>c. c \<noteq> colon) s)"
proof (induction s)
  case Nil
  show ?case by simp
next
  case (Cons c s)
  obtain p ps where ps: "js_split s = p # ps"
    using js_split_not_Nil [of s] by (cases "js_split s") auto
  show ?case
  proof (cases "c = colon")
    case True
    then show ?thesis by (simp add: js_join_split)
  next
    case False
    with Cons ps show ?thesis by simp
  qed
qed

text \<open>What \<open>decrypt\<close> takes for the IV and for the ciphertext.\<close>

lemma decrypt_parts:
  "decrypt A this data =
     (let iv = hex_decode (takeWhile (\<lambda>c. c \<noteq> colon) (utf8_decode data));
          encryptedText = hex_decode (tl (dropWhile (\<lambda>c. c \<noteq> colon) (utf8_decode data)))
      in case createDecipheriv (algorithm this) (key this) iv of
           Inl e \<Rightarrow> Inl e
         | Inr decipher \<Rightarrow>
             (case Decipher_final A (snd (Decipher_update A decipher encryptedText)) of
                Inl e \<Rightarrow> Inl e
              | Inr fin \<Rightarrow>
                  Inr (utf8_decode (fst (Decipher_update A decipher encryptedText) @ fin))))"
proof -
  obtain p ps where ps: "js_split (utf8_decode data) = p # ps"
    using js_split_not_Nil [of "utf8_decode data"] by (cases "js_split (utf8_decode data)") auto
  have "p = takeWhile (\<lambda>c. c \<noteq> colon) (utf8_decode data)"
    using hd_js_split [of "utf8_decode data"] ps by simp
  moreover have "js_join ps = tl (dropWhile (\<lambda>c. c \<noteq> colon) (utf8_decode data))"
    using js_join_tl_split [of "utf8_decode data"] ps by simp
  ultimately show ?thesis
    by (simp add: decrypt_def ps Let_def case_prod_beta split: sum.splits)
qed

lemma decrypt_invalid_iv:
  assumes "algorithm this = ''aes-256-cbc''"
    and "length (hex_decode (takeWhile (\<lambda>c. c \<noteq> colon) (utf8_decode data))) \<noteq> 16"
  shows "decrypt A this data = Inl ERR_CRYPTO_INVALID_IV"
  using assms by (simp add: decrypt_parts createDecipheriv_def createCipheriv_def)

lemma Decipher_final_empty:
  "Decipher_final A (snd (Decipher_update A \<lparr>cipher_key = k, chain = iv, pending = []\<rparr> [])) =
     Inl ERR_OSSL_WRONG_FINAL_BLOCK_LENGTH"
  by (simp add: Decipher_final_def Decipher_update_def)

lemma decrypt_no_colon:
  assumes "colon \<notin> set (utf8_decode data)"
  shows "\<exists>e. decrypt A this data = Inl e"
proof -
  have t: "takeWhile (\<lambda>c. c \<noteq> colon) (utf8_decode data) = utf8_decode data"
    using assms by (auto simp: takeWhile_eq_all_conv)
  have d: "dropWhile (\<lambda>c. c \<noteq> colon) (utf8_decode data) = []"
    using assms by (auto simp: dropWhile_eq_Nil_conv)
  show ?thesis
    by (cases "createDecipheriv (algorithm this) (key this) (hex_decode (utf8_decode data))")
       (auto simp: decrypt_parts t d createDecipheriv_def createCipheriv_def Decipher_final_empty
          split: if_splits)
qed

section \<open>Decrypting what the codec encrypted\<close>

lemma takeWhile_hex_colon:
  "takeWhile (\<lambda>c. c \<noteq> colon) (hex_encode xs @ [colon] @ s) = hex_encode xs"
  using hex_encode_ascii [of _ xs] by (simp add: takeWhile_append2 takeWhile_eq_all_conv[THEN iffD2])

lemma dropWhile_hex_colon:
  "tl (dropWhile (\<lambda>c. c \<noteq> colon) (hex_encode xs @ [colon] @ s)) = s"
  using hex_encode_ascii [of _ xs] by (simp add: dropWhile_append2)

lemma decrypt_wire_payload:
  assumes ok: "aes256_ok A" and alg: "algorithm this = ''aes-256-cbc''"
    and k: "length (key this) = 32" and iv: "length iv = 16"
    and p: "p = 16 - length d mod 16"
  shows "decrypt A this
           (utf8_encode (hex_encode iv @ [colon]
              @ hex_encode (cbc_encrypt A (key this) iv (d @ replicate p (of_nat p))))) =
         Inr (utf8_decode d)"
proof -
  let ?c = "\<lparr>cipher_key = key this, chain = iv, pending = []\<rparr>"
  let ?ct = "cbc_encrypt A (key this) iv (d @ replicate p (of_nat p))"
  let ?s = "hex_encode iv @ [colon] @ hex_encode ?ct"
  have s: "utf8_decode (utf8_encode ?s) = ?s"
    by (rule utf8_roundtrip_ascii [OF ascii_payload])
  have ct: "?ct = fst (Cipher_update A ?c d) @ Cipher_final A (snd (Cipher_update A ?c d))"
    by (rule Cipher_output [OF ok k iv refl p, symmetric])
  have f: "Decipher_final A (snd (Decipher_update A ?c ?ct)) = Inr (drop (length d div 16 * 16) d)"
    and u: "fst (Decipher_update A ?c ?ct) = take (length d div 16 * 16) d"
    using Decipher_Cipher [OF ok k iv refl ct] by blast+
  show ?thesis
    unfolding decrypt_parts s takeWhile_hex_colon dropWhile_hex_colon hex_decode_encode Let_def
      alg createDecipheriv_def createCipheriv_ok [OF k iv]
    by (simp add: f u)
qed

text \<open>Decrypting what \<open>encrypt\<close> returned gives the plaintext back.\<close>

lemma decrypt_encrypt:
  assumes ok: "aes256_ok A" and alg: "algorithm this = ''aes-256-cbc''"
    and k: "length (key this) = 32" and wf: "well_formed data"
  shows "\<exists>payload. fst (encrypt A this data g) = Inr payload
           \<and> decrypt A this payload = Inr data"
proof -
  have l: "length (fst (randomBytes 16 g)) = 16"
    by (rule length_randomBytes)
  show ?thesis
    unfolding encrypt_eq [OF ok alg k refl refl]
    using decrypt_wire_payload [OF ok alg k l refl, of "utf8_encode data"] utf8_roundtrip [OF wf]
    by simp
qed

lemma PapayaClient_encrypt_eq:
  assumes ok: "aes256_ok A" and k: "length k = 32" and iv: "length iv = 16"
    and p: "p = 16 - length (utf8_encode data) mod 16"
  shows "PapayaClient_encrypt A (PapayaClient_PNPEncryption_new k iv) data =
         Inr (hex_encode (cbc_encrypt A k iv (utf8_encode data @ replicate p (of_nat p))))"
proof -
  let ?c = "\<lparr>cipher_key = k, chain = iv, pending = []\<rparr>"
  have "hex_encode (fst (Cipher_update A ?c (utf8_encode data)))
        @ hex_encode (Cipher_final A (snd (Cipher_update A ?c (utf8_encode data)))) =
        hex_encode (cbc_encrypt A k iv (utf8_encode data @ replicate p (of_nat p)))"
    using Cipher_output [OF ok k iv refl p] by (simp flip: hex_encode_append)
  then show ?thesis
    by (simp add: PapayaClient_encrypt_def PapayaClient_PNPEncryption_new_def
        createCipheriv_ok [OF k iv] case_prod_beta Let_def)
qed

lemma PapayaClient_encrypt_error:
  "length k \<noteq> 32 \<or> length iv \<noteq> 16 \<Longrightarrow>
   \<exists>e. PapayaClient_encrypt A (PapayaClient_PNPEncryption_new k iv) data = Inl e"
  by (auto simp: PapayaClient_encrypt_def PapayaClient_PNPEncryption_new_def createCipheriv_def)

lemma PapayaClient_encrypt_Inr:
  "PapayaClient_encrypt A (PapayaClient_PNPEncryption_new k iv) data = Inr e \<Longrightarrow>
   length k = 32 \<and> length iv = 16"
  using PapayaClient_encrypt_error [of k iv A data] by auto

lemma hex_encode_all_ascii: "\<forall>c\<in>set (hex_encode xs). unat c < 128"
  using hex_encode_ascii by blast

lemma PapayaClient_decrypt_hex:
  assumes ok: "aes256_ok A" and k: "length k = 32" and iv: "length iv = 16"
    and p: "p = 16 - length d mod 16"
  shows "PapayaClient_decrypt A (PapayaClient_PNPEncryption_new k iv)
           (utf8_encode (hex_encode (cbc_encrypt A k iv (d @ replicate p (of_nat p))))) =
         Inr (utf8_decode d)"
proof -
  let ?c = "\<lparr>cipher_key = k, chain = iv, pending = []\<rparr>"
  let ?ct = "cbc_encrypt A k iv (d @ replicate p (of_nat p))"
  have s: "utf8_decode (utf8_encode (hex_encode ?ct)) = hex_encode ?ct"
    by (rule utf8_roundtrip_ascii [OF hex_encode_all_ascii])
  have ct: "?ct = fst (Cipher_update A ?c d) @ Cipher_final A (snd (Cipher_update A ?c d))"
    by (rule Cipher_output [OF ok k iv refl p, symmetric])
  have f: "Decipher_final A (snd (Decipher_update A ?c ?ct)) = Inr (drop (length d div 16 * 16) d)"
    and u: "fst (Decipher_update A ?c ?ct) = take (length d div 16 * 16) d"
    using Decipher_Cipher [OF ok k iv refl ct] by blast+
  show ?thesis
    unfolding PapayaClient_decrypt_def PapayaClient_PNPEncryption_new_def s hex_decode_encode
    by (simp add: createDecipheriv_def createCipheriv_ok [OF k iv] length_hex_encode f u
        case_prod_beta Let_def hex_decode_encode)
qed

lemma PapayaClient_decrypt_encrypt:
  assumes ok: "aes256_ok A" and wf: "well_formed data"
    and e: "PapayaClient_encrypt A (PapayaClient_PNPEncryption_new k iv) data = Inr e"
  shows "PapayaClient_decrypt A (PapayaClient_PNPEncryption_new k iv) (utf8_encode e) = Inr data"
proof -
  from e have k: "length k = 32" and iv: "length iv = 16"
    using PapayaClient_encrypt_Inr by blast+
  from e have "e = hex_encode (cbc_encrypt A k iv (utf8_encode data
      @ replicate (16 - length (utf8_encode data) mod 16)
          (of_nat (16 - length (utf8_encode data) mod 16))))"
    unfolding PapayaClient_encrypt_eq [OF ok k iv refl] by simp
  then show ?thesis
    using PapayaClient_decrypt_hex [OF ok k iv refl, of "utf8_encode data"] utf8_roundtrip [OF wf]
    by simp
qed

section \<open>The wire payload\<close>

lemma key_example_codec:
  "key example_codec =
    [3, 10, 17, 24, 31, 38, 45, 52, 59, 66, 73, 80, 87, 94, 101, 108, 115,
     122, 129, 136, 143, 150, 157, 164, 171, 178, 185, 192, 199, 206, 213, 220]"
  by (simp add: example_codec_def PNPEncryption_new_def randomBytes_def example_entropy_def upt_rec)

lemma example_codec_fields:
  "algorithm example_codec = ''aes-256-cbc''" "length (key example_codec) = 32"
  unfolding example_codec_def by (rule PNPEncryption_new_fields)+

lemma first_iv_example:
  "fst (randomBytes 16 example_rest) =
    [227, 234, 241, 248, 255, 6, 13, 20, 27, 34, 41, 48, 55, 62, 69, 76]"
  by (simp add: example_rest_def PNPEncryption_new_def randomBytes_def example_entropy_def upt_rec)

lemma second_iv_example:
  "fst (randomBytes 16 (snd (randomBytes 16 example_rest))) =
    [83, 90, 97, 104, 111, 118, 125, 132, 139, 146, 153, 160, 167, 174, 181, 188]"
  by (simp add: example_rest_def PNPEncryption_new_def randomBytes_def example_entropy_def upt_rec)

lemma replicate_numeral: "replicate (numeral v) x = x # replicate (numeral v - 1) x"
  by (simp add: numeral_eq_Suc)

lemmas evaluate_cbc =
  cbc_encrypt_block cbc_encrypt_short cbc_decrypt_block cbc_decrypt_short
  stand_in_cipher_def xor_bytes_def replicate_numeral

lemmas evaluate_hex = hex_digit_def ascii_def colon_def unhex_def low_byte_def

text \<open>
  Claim C2, as the two codecs have it. In the codec that draws its own key, \<open>encrypt\<close>
  draws the next 16 bytes of the entropy source as the IV at every call and returns the
  bytes of hex(IV), a colon and hex(ciphertext); the ciphertext is the CBC encryption,
  under the instance's key and that IV, of the plaintext's UTF-8 bytes with PKCS#7
  padding; both halves are lowercase hexadecimal. In the codec of \<^verbatim>\<open>PapayaClient.ts\<close>,
  \<open>encrypt\<close> uses the IV given to the constructor and returns hex(ciphertext) alone.
\<close>

theorem encrypt_wire_payload:
  assumes "aes256_ok A" and "this = fst (PNPEncryption_new g0)"
    and "iv = fst (randomBytes 16 g)"
    and "d = utf8_encode data" and "p = 16 - length d mod 16"
  shows "encrypt A this data g =
           (Inr (utf8_encode (hex_encode iv @ [colon]
                   @ hex_encode (cbc_encrypt A (key this) iv (d @ replicate p (of_nat p))))),
            snd (randomBytes 16 g))
         \<and> length iv = 16
         \<and> iv = map (pool g) [drawn g ..< drawn g + 16]
         \<and> drawn (snd (randomBytes 16 g)) = drawn g + 16
         \<and> pool (snd (randomBytes 16 g)) = pool g
         \<and> (\<forall>c\<in>set (hex_encode iv
                     @ hex_encode (cbc_encrypt A (key this) iv (d @ replicate p (of_nat p)))).
               c \<in> set (ascii ''0123456789abcdef''))
         \<and> (length k = 32 \<and> length v = 16 \<longrightarrow>
              PapayaClient_encrypt A (PapayaClient_PNPEncryption_new k v) data =
                Inr (hex_encode (cbc_encrypt A k v (d @ replicate p (of_nat p)))))"
proof -
  have alg: "algorithm this = ''aes-256-cbc''" and k: "length (key this) = 32"
    unfolding assms(2) by (rule PNPEncryption_new_fields)+
  have "encrypt A this data g =
      (Inr (utf8_encode (hex_encode iv @ [colon]
              @ hex_encode (cbc_encrypt A (key this) iv (d @ replicate p (of_nat p))))),
       snd (randomBytes 16 g))"
    unfolding assms(4) using assms(5) [unfolded assms(4)]
    by (rule encrypt_eq [OF assms(1) alg k assms(3)])
  moreover have "length iv = 16"
    unfolding assms(3) by (rule length_randomBytes)
  moreover have "iv = map (pool g) [drawn g ..< drawn g + 16]"
    "drawn (snd (randomBytes 16 g)) = drawn g + 16" "pool (snd (randomBytes 16 g)) = pool g"
    unfolding assms(3) by (simp_all add: randomBytes_def)
  moreover have "\<forall>c\<in>set (hex_encode iv
        @ hex_encode (cbc_encrypt A (key this) iv (d @ replicate p (of_nat p)))).
      c \<in> set (ascii ''0123456789abcdef'')"
    using hex_encode_lower by auto
  moreover have "PapayaClient_encrypt A (PapayaClient_PNPEncryption_new k v) data =
      Inr (hex_encode (cbc_encrypt A k v (d @ replicate p (of_nat p))))"
    if "length k = 32" "length v = 16"
    unfolding assms(4) using assms(5) [unfolded assms(4)]
    by (rule PapayaClient_encrypt_eq [OF assms(1) that])
  ultimately show ?thesis
    by blast
qed

theorem encrypt_wire_payload_witness:
  "fst (encrypt stand_in_cipher example_codec (ascii ''hi'') example_rest) =
     Inr (utf8_encode
       (ascii ''e3eaf1f8ff060d141b222930373e454c:8e8d100e102e304e506e708e908eb0ae''))"
proof -
  have d: "utf8_encode (ascii ''hi'') = [104, 105]"
    by (simp add: utf8_encode_ascii ascii_def)
  have h: "hex_encode [227, 234, 241, 248, 255, 6, 13, 20, 27, 34, 41, 48, 55, 62, 69, 76]
      @ [colon] @ hex_encode [142, 141, 16, 14, 16, 46, 48, 78, 80, 110, 112, 142, 144, 142, 176, 174]
      = ascii ''e3eaf1f8ff060d141b222930373e454c:8e8d100e102e304e506e708e908eb0ae''"
    by (simp add: evaluate_hex)
  have "cbc_encrypt stand_in_cipher (key example_codec)
      [227, 234, 241, 248, 255, 6, 13, 20, 27, 34, 41, 48, 55, 62, 69, 76]
      ([104, 105] @ replicate 14 14) =
      [142, 141, 16, 14, 16, 46, 48, 78, 80, 110, 112, 142, 144, 142, 176, 174]"
    by (simp add: key_example_codec evaluate_cbc)
  with encrypt_wire_payload [OF stand_in_cipher_ok example_codec_def refl refl refl,
      of "ascii ''hi''" example_rest]
  show ?thesis
    unfolding first_iv_example d by (simp only: h [symmetric] fst_conv) simp
qed

theorem PapayaClient_encrypt_no_iv_counterexample:
  "PapayaClient_encrypt stand_in_cipher PapayaClient_example_codec (ascii ''hi'') =
     Inr (ascii ''8e8d100e102e304e506e708e908eb0ae'')
   \<and> colon \<notin> set (ascii ''8e8d100e102e304e506e708e908eb0ae'')"
proof -
  have d: "utf8_encode (ascii ''hi'') = [104, 105]"
    by (simp add: utf8_encode_ascii ascii_def)
  have h: "hex_encode [142, 141, 16, 14, 16, 46, 48, 78, 80, 110, 112, 142, 144, 142, 176, 174]
      = ascii ''8e8d100e102e304e506e708e908eb0ae''"
    by (simp add: evaluate_hex)
  have c: "cbc_encrypt stand_in_cipher (key example_codec)
      [227, 234, 241, 248, 255, 6, 13, 20, 27, 34, 41, 48, 55, 62, 69, 76]
      ([104, 105] @ replicate 14 14) =
      [142, 141, 16, 14, 16, 46, 48, 78, 80, 110, 112, 142, 144, 142, 176, 174]"
    by (simp add: key_example_codec evaluate_cbc)
  have l: "length [227, 234, 241, 248, 255, 6, 13, 20, 27, 34, 41, 48, 55, 62, 69, 76 :: byte] = 16"
    by simp
  have "PapayaClient_encrypt stand_in_cipher PapayaClient_example_codec (ascii ''hi'') =
     Inr (ascii ''8e8d100e102e304e506e708e908eb0ae'')"
    unfolding PapayaClient_example_codec_def first_iv_example
      PapayaClient_encrypt_eq [OF stand_in_cipher_ok example_codec_fields(2) l refl] d
    using c by (simp add: h del: hex_encode.simps)
  moreover have "colon \<notin> set (ascii ''8e8d100e102e304e506e708e908eb0ae'')"
    by (simp add: evaluate_hex)
  ultimately show ?thesis by blast
qed

section \<open>Successive messages\<close>

lemma utf8_encode_ascii_inj:
  assumes "\<forall>c\<in>set s. unat c < 128" "\<forall>c\<in>set t. unat c < 128"
    and "utf8_encode s = utf8_encode t"
  shows "s = t"
proof -
  have "s = utf8_decode (utf8_encode s)"
    by (simp only: utf8_roundtrip_ascii [OF assms(1)])
  also have "\<dots> = utf8_decode (utf8_encode t)"
    by (simp only: assms(3))
  also have "\<dots> = t"
    by (simp only: utf8_roundtrip_ascii [OF assms(2)])
  finally show ?thesis .
qed

lemma hex_encode_inj: "hex_encode xs = hex_encode ys \<Longrightarrow> xs = ys"
  by (metis hex_decode_encode)

lemma wire_payload_iv:
  assumes "utf8_encode (hex_encode iv @ [colon] @ hex_encode ct) =
           utf8_encode (hex_encode iv' @ [colon] @ hex_encode ct')"
  shows "iv = iv'"
proof -
  have "hex_encode iv @ [colon] @ hex_encode ct = hex_encode iv' @ [colon] @ hex_encode ct'"
    using ascii_payload ascii_payload assms by (rule utf8_encode_ascii_inj)
  then have "takeWhile (\<lambda>c. c \<noteq> colon) (hex_encode iv @ [colon] @ hex_encode ct) =
      takeWhile (\<lambda>c. c \<noteq> colon) (hex_encode iv' @ [colon] @ hex_encode ct')"
    by simp
  then show ?thesis
    unfolding takeWhile_hex_colon by (rule hex_encode_inj)
qed

text \<open>
  Claim C3, as the two codecs have it. In the codec that draws its own key, the
  second of two successive \<open>encrypt\<close> calls draws the 16 bytes after those of the first,
  and with the same plaintext the two payloads are equal exactly when the two IVs
  drawn are equal: the payloads differ whenever the random source gives two different
  IVs. (The codec of \<^verbatim>\<open>PapayaClient.ts\<close> has one IV for all its messages, and its
  \<open>encrypt\<close> is a function of the codec and the plaintext alone.)
\<close>

theorem successive_payloads:
  assumes "aes256_ok A" and "this = fst (PNPEncryption_new g0)"
    and "encrypt A this data g = (r1, g1)" and "encrypt A this data g1 = (r2, g2)"
  shows "(\<exists>p1 p2. r1 = Inr p1 \<and> r2 = Inr p2)
     \<and> (r1 = r2 \<longleftrightarrow>
          map (pool g) [drawn g ..< drawn g + 16] = map (pool g) [drawn g + 16 ..< drawn g + 32])"
proof -
  have alg: "algorithm this = ''aes-256-cbc''" and k: "length (key this) = 32"
    unfolding assms(2) by (rule PNPEncryption_new_fields)+
  let ?d = "utf8_encode data"
  let ?p = "16 - length ?d mod 16"
  let ?iv1 = "fst (randomBytes 16 g)"
  let ?iv2 = "fst (randomBytes 16 g1)"
  let ?ct = "\<lambda>iv. cbc_encrypt A (key this) iv (?d @ replicate ?p (of_nat ?p))"
  have r1: "r1 = Inr (utf8_encode (hex_encode ?iv1 @ [colon] @ hex_encode (?ct ?iv1)))"
    and g1: "g1 = snd (randomBytes 16 g)"
    using assms(3) unfolding encrypt_eq [OF assms(1) alg k refl refl] by simp_all
  have r2: "r2 = Inr (utf8_encode (hex_encode ?iv2 @ [colon] @ hex_encode (?ct ?iv2)))"
    using assms(4) unfolding encrypt_eq [OF assms(1) alg k refl refl] by simp
  have iv1: "?iv1 = map (pool g) [drawn g ..< drawn g + 16]"
    by (simp add: randomBytes_def)
  have iv2: "?iv2 = map (pool g) [drawn g + 16 ..< drawn g + 32]"
    unfolding g1 by (simp add: randomBytes_def add.commute)
  have "r1 = r2 \<longleftrightarrow> ?iv1 = ?iv2"
  proof
    assume "r1 = r2"
    then show "?iv1 = ?iv2"
      unfolding r1 r2 using wire_payload_iv by blast
  next
    assume "?iv1 = ?iv2"
    then show "r1 = r2"
      unfolding r1 r2 by simp
  qed
  then show ?thesis
    unfolding iv1 iv2 using r1 r2 by blast
qed

theorem successive_payloads_witness:
  "fst (encrypt stand_in_cipher example_codec (ascii ''get'') example_rest) \<noteq>
   fst (encrypt stand_in_cipher example_codec (ascii ''get'')
          (snd (encrypt stand_in_cipher example_codec (ascii ''get'') example_rest)))"
proof -
  have "map (pool example_rest) [drawn example_rest ..< drawn example_rest + 16] \<noteq>
      map (pool example_rest) [drawn example_rest + 16 ..< drawn example_rest + 32]"
    by (simp add: example_rest_def PNPEncryption_new_def randomBytes_def example_entropy_def
        upt_rec)
  with successive_payloads [OF stand_in_cipher_ok example_codec_def surjective_pairing
      surjective_pairing, of "ascii ''get''" example_rest]
  show ?thesis by blast
qed

theorem PapayaClient_encrypt_repeats_counterexample:
  "PapayaClient_encrypt stand_in_cipher PapayaClient_example_codec (ascii ''get'') =
     Inr (ascii ''8799960d11312d4d51716d8d9191adad'')"
proof -
  have d: "utf8_encode (ascii ''get'') = [103, 101, 116]"
    by (simp add: utf8_encode_ascii ascii_def)
  have h: "hex_encode [135, 153, 150, 13, 17, 49, 45, 77, 81, 113, 109, 141, 145, 145, 173, 173]
      = ascii ''8799960d11312d4d51716d8d9191adad''"
    by (simp add: evaluate_hex)
  have c: "cbc_encrypt stand_in_cipher (key example_codec)
      [227, 234, 241, 248, 255, 6, 13, 20, 27, 34, 41, 48, 55, 62, 69, 76]
      ([103, 101, 116] @ replicate 13 13) =
      [135, 153, 150, 13, 17, 49, 45, 77, 81, 113, 109, 141, 145, 145, 173, 173]"
    by (simp add: key_example_codec evaluate_cbc)
  have l: "length [227, 234, 241, 248, 255, 6, 13, 20, 27, 34, 41, 48, 55, 62, 69, 76 :: byte] = 16"
    by simp
  show ?thesis
    unfolding PapayaClient_example_codec_def first_iv_example
      PapayaClient_encrypt_eq [OF stand_in_cipher_ok example_codec_fields(2) l refl] d
    using c by (simp add: h del: hex_encode.simps)
qed

section \<open>Payloads that do not decrypt\<close>

text \<open>
  Claim C9. In the codec that draws its own key, \<open>decrypt\<close> throws for every payload
  whose bytes before the first colon do not decode, as text and then from hexadecimal
  (as Node decodes it: \<open>hex_decode\<close>), to exactly 16 bytes: \<^verbatim>\<open>createDecipheriv\<close> refuses
  the IV. This includes the empty payload. A payload without a colon never decrypts
  either: all of it is taken for the IV, and when that is 16 bytes the ciphertext is
  empty and \<^verbatim>\<open>final\<close> throws.
\<close>

theorem decrypt_rejects_bad_iv:
  assumes "this = fst (PNPEncryption_new g0)"
  shows "(length (hex_decode (utf8_decode (takeWhile (\<lambda>b. b \<noteq> 0x3A) payload))) \<noteq> 16 \<longrightarrow>
            decrypt A this payload = Inl ERR_CRYPTO_INVALID_IV)
       \<and> (0x3A \<notin> set payload \<longrightarrow> (\<exists>e. decrypt A this payload = Inl e))
       \<and> decrypt A this [] = Inl ERR_CRYPTO_INVALID_IV"
proof -
  have alg: "algorithm this = ''aes-256-cbc''"
    unfolding assms by (rule PNPEncryption_new_fields)
  have "decrypt A this [] = Inl ERR_CRYPTO_INVALID_IV"
    by (rule decrypt_invalid_iv [OF alg]) (simp add: utf8_decode_def)
  moreover have "decrypt A this payload = Inl ERR_CRYPTO_INVALID_IV"
    if "length (hex_decode (utf8_decode (takeWhile (\<lambda>b. b \<noteq> 0x3A) payload))) \<noteq> 16"
    using that unfolding utf8_decode_takeWhile [symmetric] by (rule decrypt_invalid_iv [OF alg])
  moreover have "\<exists>e. decrypt A this payload = Inl e" if "0x3A \<notin> set payload"
    using that by (intro decrypt_no_colon utf8_decode_no_colon)
  ultimately show ?thesis
    by blast
qed

text \<open>
  An IV of four bytes; no colon; and an IV of 32 digits followed by U+0131 and U+0132,
  which decode to a seventeenth byte.
\<close>

theorem decrypt_rejects_bad_iv_witness:
  "decrypt stand_in_cipher example_codec (utf8_encode (ascii ''e3eaf1f8:8e8d100e'')) =
     Inl ERR_CRYPTO_INVALID_IV
   \<and> (\<exists>e. decrypt stand_in_cipher example_codec
              (utf8_encode (ascii ''e3eaf1f8ff060d141b222930373e454c'')) = Inl e)
   \<and> decrypt stand_in_cipher example_codec
       (utf8_encode (ascii ''e3eaf1f8ff060d141b222930373e454c'' @ [0x131, 0x132]
          @ ascii '':8e8d100e102e304e506e708e908eb0ae'')) =
     Inl ERR_CRYPTO_INVALID_IV"
proof -
  have a: "utf8_encode (ascii ''e3eaf1f8:8e8d100e'') =
      [101, 51, 101, 97, 102, 49, 102, 56, 58, 56, 101, 56, 100, 49, 48, 48, 101]"
    by (subst utf8_encode_ascii) (simp_all add: ascii_def)
  have b: "utf8_encode (ascii ''e3eaf1f8ff060d141b222930373e454c'') =
      [101, 51, 101, 97, 102, 49, 102, 56, 102, 102, 48, 54, 48, 100, 49, 52,
       49, 98, 50, 50, 50, 57, 51, 48, 51, 55, 51, 101, 52, 53, 52, 99]"
    by (subst utf8_encode_ascii) (simp_all add: ascii_def)
  have c: "utf8_encode (ascii ''e3eaf1f8ff060d141b222930373e454c'' @ [0x131, 0x132]
          @ ascii '':8e8d100e102e304e506e708e908eb0ae'') =
      [101, 51, 101, 97, 102, 49, 102, 56, 102, 102, 48, 54, 48, 100, 49, 52,
       49, 98, 50, 50, 50, 57, 51, 48, 51, 55, 51, 101, 52, 53, 52, 99,
       196, 177, 196, 178, 58,
       56, 101, 56, 100, 49, 48, 48, 101, 49, 48, 50, 101, 51, 48, 52, 101,
       53, 48, 54, 101, 55, 48, 56, 101, 57, 48, 56, 101, 98, 48, 97, 101]"
    by (simp add: utf8_encode_def ascii_def utf8_of_code_point_def is_surrogate_def
        is_high_surrogate_def)
  have "length (hex_decode (utf8_decode (takeWhile (\<lambda>b. b \<noteq> 0x3A)
      [101, 51, 101, 97, 102, 49, 102, 56, 58, 56, 101, 56, 100, 49, 48, 48, 101]))) \<noteq> 16"
    by (simp add: utf8_decode_ascii unhex_def low_byte_def)
  moreover have "0x3A \<notin> set [101, 51, 101, 97, 102, 49, 102, 56, 102, 102, 48, 54, 48, 100, 49, 52,
       49, 98, 50, 50, 50, 57, 51, 48, 51, 55, 51, 101, 52, 53, 52, 99 :: byte]"
    by simp
  moreover have "hex_decode (utf8_decode (takeWhile (\<lambda>b. b \<noteq> 0x3A)
      [101, 51, 101, 97, 102, 49, 102, 56, 102, 102, 48, 54, 48, 100, 49, 52,
       49, 98, 50, 50, 50, 57, 51, 48, 51, 55, 51, 101, 52, 53, 52, 99,
       196, 177, 196, 178, 58,
       56, 101, 56, 100, 49, 48, 48, 101, 49, 48, 50, 101, 51, 48, 52, 101,
       53, 48, 54, 101, 55, 48, 56, 101, 57, 48, 56, 101, 98, 48, 97, 101])) =
      [227, 234, 241, 248, 255, 6, 13, 20, 27, 34, 41, 48, 55, 62, 69, 76, 18]"
    by (simp add: utf8_decode_def is_continuation_def utf16_of_code_point_def unhex_def
        low_byte_def)
  ultimately show ?thesis
    using decrypt_rejects_bad_iv [OF example_codec_def,
        of "utf8_encode (ascii ''e3eaf1f8:8e8d100e'')" stand_in_cipher]
      decrypt_rejects_bad_iv [OF example_codec_def,
        of "utf8_encode (ascii ''e3eaf1f8ff060d141b222930373e454c'')" stand_in_cipher]
      decrypt_rejects_bad_iv [OF example_codec_def,
        of "utf8_encode (ascii ''e3eaf1f8ff060d141b222930373e454c'' @ [0x131, 0x132]
          @ ascii '':8e8d100e102e304e506e708e908eb0ae'')" stand_in_cipher]
    unfolding a b c by simp
qed

section \<open>The outcome of decrypt\<close>

text \<open>The outcome of \<open>decrypt\<close> on any payload.\<close>

lemma decrypt_cases:
  assumes ok: "aes256_ok A" and alg: "algorithm this = ''aes-256-cbc''"
    and k: "length (key this) = 32"
    and iv: "iv = hex_decode (takeWhile (\<lambda>c. c \<noteq> colon) (utf8_decode payload))"
    and ct: "ct = hex_decode (tl (dropWhile (\<lambda>c. c \<noteq> colon) (utf8_decode payload)))"
    and pt: "pt = cbc_decrypt A (key this) iv ct"
    and n: "n = unat (last pt)"
  shows "decrypt A this payload =
     (if length iv \<noteq> 16 then Inl ERR_CRYPTO_INVALID_IV
      else if ct = [] \<or> length ct mod 16 \<noteq> 0 then Inl ERR_OSSL_WRONG_FINAL_BLOCK_LENGTH
      else if n = 0 \<or> 16 < n \<or> \<not> list_all (\<lambda>b. unat b = n) (drop (length pt - n) pt)
      then Inl ERR_OSSL_BAD_DECRYPT
      else Inr (utf8_decode (take (length pt - n) pt)))"
proof (cases "length iv = 16")
  case False
  then show ?thesis
    using decrypt_invalid_iv [OF alg, of payload A] iv by simp
next
  case True
  let ?c = "\<lparr>cipher_key = key this, chain = iv, pending = []\<rparr>"
  have d: "decrypt A this payload =
      (case Decipher_final A (snd (Decipher_update A ?c ct)) of
         Inl e \<Rightarrow> Inl e
       | Inr fin \<Rightarrow> Inr (utf8_decode (fst (Decipher_update A ?c ct) @ fin)))"
    unfolding decrypt_parts Let_def iv [symmetric] ct [symmetric] alg createDecipheriv_def
      createCipheriv_ok [OF k True]
    by simp
  show ?thesis
  proof (cases "ct = [] \<or> length ct mod 16 \<noteq> 0")
    case bad: True
    then show ?thesis
      unfolding d using True by (simp add: Decipher_wrong_length)
  next
    case False
    then have ne: "ct \<noteq> []" and md: "length ct mod 16 = 0"
      by simp_all
    show ?thesis
      unfolding d using Decipher_whole_blocks [OF ok k True ne md refl pt n] True False
      by (auto split: sum.splits if_splits)
  qed
qed

text \<open>
  Claim C4, as the code has it. In the codec that draws its own key, \<open>decrypt\<close> throws
  exactly in three cases, with the error of the library call that fails: the text before
  the first colon does not decode from hexadecimal to 16 bytes
  (\<open>ERR_CRYPTO_INVALID_IV\<close>); the text after it decodes to no byte or to a number of
  bytes that is not a multiple of 16 (\<open>ERR_OSSL_WRONG_FINAL_BLOCK_LENGTH\<close>); the
  padding of the decrypted text is not valid (\<open>ERR_OSSL_BAD_DECRYPT\<close>). Otherwise it
  returns the decrypted text without its padding. Hexadecimal decoding is \<open>hex_decode\<close>:
  it reads each character by the low byte of its code unit, stops at the first pair that
  is not two digits and throws nothing, so text that is not hexadecimal is refused only
  through these three conditions.
\<close>

theorem decrypt_outcome:
  assumes "aes256_ok A" and "this = fst (PNPEncryption_new g0)"
    and "iv = hex_decode (takeWhile (\<lambda>c. c \<noteq> colon) (utf8_decode payload))"
    and "ct = hex_decode (tl (dropWhile (\<lambda>c. c \<noteq> colon) (utf8_decode payload)))"
    and "pt = cbc_decrypt A (key this) iv ct"
    and "n = unat (last pt)"
  shows "decrypt A this payload =
     (if length iv \<noteq> 16 then Inl ERR_CRYPTO_INVALID_IV
      else if ct = [] \<or> length ct mod 16 \<noteq> 0 then Inl ERR_OSSL_WRONG_FINAL_BLOCK_LENGTH
      else if n = 0 \<or> 16 < n \<or> \<not> list_all (\<lambda>b. unat b = n) (drop (length pt - n) pt)
      then Inl ERR_OSSL_BAD_DECRYPT
      else Inr (utf8_decode (take (length pt - n) pt)))"
proof -
  have alg: "algorithm this = ''aes-256-cbc''" and k: "length (key this) = 32"
    unfolding assms(2) by (rule PNPEncryption_new_fields)+
  show ?thesis
    by (rule decrypt_cases [OF assms(1) alg k assms(3-6)])
qed

lemma utf8_decode_encode_literal:
  assumes "\<forall>c\<in>set s. (of_char c :: nat) < 128"
  shows "utf8_decode (utf8_encode (ascii s)) = ascii s"
proof (rule utf8_roundtrip_ascii)
  have "unat (of_nat (of_char c) :: 16 word) < 128" if "c \<in> set s" for c
  proof -
    have "(of_char c :: nat) < 128"
      using assms that by blast
    moreover from this have "(of_char c :: nat) < 65536"
      by linarith
    ultimately show ?thesis
      by (simp only: unat_of_nat_unit)
  qed
  then show "\<forall>c\<in>set (ascii s). unat c < 128"
    by (auto simp: ascii_def)
qed

text \<open>
  A ciphertext of two bytes is refused at \<^verbatim>\<open>final\<close>. A payload whose first character is
  U+0165, with the low byte of the digit \<^verbatim>\<open>e\<close>, decrypts as with that digit.
\<close>

theorem decrypt_outcome_witness:
  "decrypt stand_in_cipher example_codec
     (utf8_encode (ascii ''e3eaf1f8ff060d141b222930373e454c:8e8d'')) =
   Inl ERR_OSSL_WRONG_FINAL_BLOCK_LENGTH
   \<and> decrypt stand_in_cipher example_codec
       (utf8_encode
          (0x165 # ascii ''3eaf1f8ff060d141b222930373e454c:8e8d100e102e304e506e708e908eb0ae'')) =
     Inr (ascii ''hi'')"
proof -
  have t: "utf8_decode (utf8_encode (ascii ''e3eaf1f8ff060d141b222930373e454c:8e8d'')) =
      ascii ''e3eaf1f8ff060d141b222930373e454c:8e8d''"
    by (rule utf8_decode_encode_literal) simp
  have iv: "hex_decode (takeWhile (\<lambda>c. c \<noteq> colon)
      (ascii ''e3eaf1f8ff060d141b222930373e454c:8e8d'')) =
      [227, 234, 241, 248, 255, 6, 13, 20, 27, 34, 41, 48, 55, 62, 69, 76]"
    by (simp add: evaluate_hex)
  have ct: "hex_decode (tl (dropWhile (\<lambda>c. c \<noteq> colon)
      (ascii ''e3eaf1f8ff060d141b222930373e454c:8e8d''))) = [142, 141]"
    by (simp add: evaluate_hex)
  have one: "decrypt stand_in_cipher example_codec
     (utf8_encode (ascii ''e3eaf1f8ff060d141b222930373e454c:8e8d'')) =
      Inl ERR_OSSL_WRONG_FINAL_BLOCK_LENGTH"
    using decrypt_outcome [OF stand_in_cipher_ok example_codec_def refl refl refl refl,
        of "utf8_encode (ascii ''e3eaf1f8ff060d141b222930373e454c:8e8d'')"]
    unfolding t iv ct by simp
  let ?s = "0x165 # ascii ''3eaf1f8ff060d141b222930373e454c:8e8d100e102e304e506e708e908eb0ae''"
  have "well_formed ?s"
    by (simp add: well_formed_def ascii_def is_surrogate_def is_high_surrogate_def)
  then have t2: "utf8_decode (utf8_encode ?s) = ?s"
    by (rule utf8_roundtrip)
  have iv2: "hex_decode (takeWhile (\<lambda>c. c \<noteq> colon) ?s) =
      [227, 234, 241, 248, 255, 6, 13, 20, 27, 34, 41, 48, 55, 62, 69, 76]"
    by (simp add: evaluate_hex)
  have ct2: "hex_decode (tl (dropWhile (\<lambda>c. c \<noteq> colon) ?s)) =
      [142, 141, 16, 14, 16, 46, 48, 78, 80, 110, 112, 142, 144, 142, 176, 174]"
    by (simp add: evaluate_hex)
  have pt: "cbc_decrypt stand_in_cipher (key example_codec)
      [227, 234, 241, 248, 255, 6, 13, 20, 27, 34, 41, 48, 55, 62, 69, 76]
      [142, 141, 16, 14, 16, 46, 48, 78, 80, 110, 112, 142, 144, 142, 176, 174] =
      [104, 105, 14, 14, 14, 14, 14, 14, 14, 14, 14, 14, 14, 14, 14, 14]"
    by (simp add: key_example_codec evaluate_cbc)
  have hi: "utf8_decode [104, 105] = ascii ''hi''"
    by (simp add: utf8_decode_ascii ascii_def)
  have two: "decrypt stand_in_cipher example_codec (utf8_encode ?s) = Inr (ascii ''hi'')"
    using decrypt_outcome [OF stand_in_cipher_ok example_codec_def refl refl refl refl,
        of "utf8_encode ?s"]
    unfolding t2 iv2 ct2 unfolding example_codec_def [symmetric] pt by (simp add: hi)
  from one two show ?thesis
    by (rule conjI)
qed

text \<open>
  Text after the ciphertext that does not decode from hexadecimal makes no difference to
  \<open>decrypt\<close>, whatever the block cipher.
\<close>

lemma hex_decode_encode_append: "hex_decode (hex_encode bs @ s) = bs @ hex_decode s"
proof (induction bs)
  case Nil
  show ?case by simp
next
  case (Cons b bs)
  have "(of_nat (16 * (unat b div 16) + unat b mod 16) :: byte) = b"
    by simp
  with Cons nibbles [of b] show ?case
    by (simp add: unhex_hex_digit low_byte_hex_digit)
qed

lemma utf8_encode_ascii_append:
  assumes "\<forall>c\<in>set s. unat c < 128" and "\<forall>c\<in>set t. unat c < 128"
  shows "utf8_encode (s @ t) = utf8_encode s @ utf8_encode t"
proof -
  have "\<forall>c\<in>set (s @ t). unat c < 128"
    using assms by auto
  then show ?thesis
    by (simp add: utf8_encode_ascii assms)
qed

lemma decrypt_wire_payload_trailing:
  assumes ok: "aes256_ok A" and alg: "algorithm this = ''aes-256-cbc''"
    and k: "length (key this) = 32" and iv: "length iv = 16"
    and p: "p = 16 - length d mod 16"
    and s: "\<forall>c\<in>set s. unat c < 128" and h: "hex_decode s = []"
  shows "decrypt A this
           (utf8_encode (hex_encode iv @ [colon]
              @ hex_encode (cbc_encrypt A (key this) iv (d @ replicate p (of_nat p))))
            @ utf8_encode s) =
         Inr (utf8_decode d)"
proof -
  let ?c = "\<lparr>cipher_key = key this, chain = iv, pending = []\<rparr>"
  let ?ct = "cbc_encrypt A (key this) iv (d @ replicate p (of_nat p))"
  let ?s = "hex_encode iv @ [colon] @ hex_encode ?ct @ s"
  have a: "\<forall>c\<in>set ?s. unat c < 128"
    using ascii_payload [of iv ?ct] s by auto
  have "utf8_encode (hex_encode iv @ [colon] @ hex_encode ?ct) @ utf8_encode s =
      utf8_encode ((hex_encode iv @ [colon] @ hex_encode ?ct) @ s)"
    by (rule utf8_encode_ascii_append [OF ascii_payload s, symmetric])
  then have e: "utf8_encode (hex_encode iv @ [colon] @ hex_encode ?ct) @ utf8_encode s =
      utf8_encode ?s"
    by simp
  have r: "utf8_decode (utf8_encode ?s) = ?s"
    by (rule utf8_roundtrip_ascii [OF a])
  have ct: "?ct = fst (Cipher_update A ?c d) @ Cipher_final A (snd (Cipher_update A ?c d))"
    by (rule Cipher_output [OF ok k iv refl p, symmetric])
  have f: "Decipher_final A (snd (Decipher_update A ?c ?ct)) = Inr (drop (length d div 16 * 16) d)"
    and u: "fst (Decipher_update A ?c ?ct) = take (length d div 16 * 16) d"
    using Decipher_Cipher [OF ok k iv refl ct] by blast+
  have hd: "hex_decode (hex_encode ?ct @ s) = ?ct"
    by (simp add: hex_decode_encode_append h)
  show ?thesis
    unfolding e decrypt_parts r takeWhile_hex_colon dropWhile_hex_colon hex_decode_encode hd Let_def
      alg createDecipheriv_def createCipheriv_ok [OF k iv]
    by (simp add: f u)
qed

lemma decrypt_encrypt_trailing:
  assumes ok: "aes256_ok A" and alg: "algorithm this = ''aes-256-cbc''"
    and k: "length (key this) = 32" and wf: "well_formed data"
    and s: "\<forall>c\<in>set s. unat c < 128" and h: "hex_decode s = []"
  shows "\<exists>payload. fst (encrypt A this data g) = Inr payload
           \<and> decrypt A this (payload @ utf8_encode s) = Inr data"
proof -
  have l: "length (fst (randomBytes 16 g)) = 16"
    by (rule length_randomBytes)
  show ?thesis
    unfolding encrypt_eq [OF ok alg k refl refl]
    using decrypt_wire_payload_trailing [OF ok alg k l refl s h, of "utf8_encode data"]
      utf8_roundtrip [OF wf]
    by simp
qed

text \<open>
  A payload with text that is not hexadecimal, which \<open>decrypt\<close> accepts: for every block
  cipher \<open>C\<close>, the payload that \<open>encrypt\<close> returns for \<^verbatim>\<open>"hi"\<close>, followed by \<^verbatim>\<open>"zz"\<close>,
  decrypts to \<^verbatim>\<open>"hi"\<close>.
\<close>

theorem decrypt_accepts_non_hex_counterexample:
  "\<forall>C. \<exists>payload.
     fst (encrypt (Rep_block_cipher C) example_codec (ascii ''hi'') example_rest) = Inr payload
     \<and> decrypt (Rep_block_cipher C) example_codec (payload @ utf8_encode (ascii ''zz'')) =
         Inr (ascii ''hi'')"
proof
  fix C
  have w: "well_formed (ascii ''hi'')"
    by (simp add: well_formed_def ascii_def is_surrogate_def)
  have s: "\<forall>c\<in>set (ascii ''zz''). unat c < 128"
    by (simp add: ascii_def)
  have h: "hex_decode (ascii ''zz'') = []"
    by (simp add: evaluate_hex)
  show "\<exists>payload.
     fst (encrypt (Rep_block_cipher C) example_codec (ascii ''hi'') example_rest) = Inr payload
     \<and> decrypt (Rep_block_cipher C) example_codec (payload @ utf8_encode (ascii ''zz'')) =
         Inr (ascii ''hi'')"
    by (rule decrypt_encrypt_trailing [OF block_cipher_ok example_codec_fields w s h])
qed

section \<open>JSON text is well-formed UTF-16\<close>

lemma well_formed_utf16_append:
  "well_formed_utf16 a \<Longrightarrow> well_formed_utf16 b \<Longrightarrow> well_formed_utf16 (a @ b)"
proof (induction a rule: well_formed_utf16.induct)
  case 1
  then show ?case by simp
next
  case (2 u)
  then have "\<not> is_high_surrogate u"
    unfolding well_formed_utf16.simps is_surrogate_def is_high_surrogate_def by linarith
  with 2 show ?case
    by (cases b) simp_all
next
  case (3 h l us)
  then show ?case
    by (auto split: if_splits)
qed

lemma well_formed_append: "well_formed a \<Longrightarrow> well_formed b \<Longrightarrow> well_formed (a @ b)"
  by (simp add: well_formed_def well_formed_utf16_append)

lemma well_formed_utf16_no_surrogate:
  "\<forall>u\<in>set us. \<not> is_surrogate u \<Longrightarrow> well_formed_utf16 us"
  by (induction us rule: well_formed_utf16.induct)
     (auto simp: is_surrogate_def is_high_surrogate_def)

lemma well_formed_no_surrogate:
  "\<forall>c\<in>set s. \<not> is_surrogate (unat c) \<Longrightarrow> well_formed s"
  by (simp add: well_formed_def well_formed_utf16_no_surrogate)

lemma hex_digit_no_surrogate: "n < 16 \<Longrightarrow> \<not> is_surrogate (unat (hex_digit n))"
  by (simp add: hex_digit_range is_surrogate_def)

lemma hex4_no_surrogate: "\<forall>c\<in>set (hex4 n). \<not> is_surrogate (unat c)"
  by (simp add: hex4_def hex_digit_no_surrogate)

lemma escape_unit_no_surrogate: "\<forall>c\<in>set (escape_unit u). \<not> is_surrogate (unat c)"
  by (simp add: escape_unit_def hex4_no_surrogate) (simp add: is_surrogate_def)

lemma well_formed_quote_code_units: "well_formed (quote_code_units s)"
proof (induction s rule: quote_code_units.induct)
  case 1
  show ?case by (simp add: well_formed_def)
next
  case (2 u)
  show ?case
    using escape_unit_no_surrogate by (simp add: well_formed_no_surrogate)
next
  case (3 h l us)
  show ?case
  proof (cases "is_high_surrogate (unat h) \<and> is_low_surrogate (unat l)")
    case True
    then have "well_formed (quote_code_units us)"
      by (rule 3(1))
    with True show ?thesis
      by (simp add: well_formed_def)
  next
    case False
    have "well_formed (escape_unit h)"
      using escape_unit_no_surrogate by (rule well_formed_no_surrogate)
    moreover have "well_formed (quote_code_units (l # us))"
      using 3(2) False by blast
    moreover have "quote_code_units (h # l # us) = escape_unit h @ quote_code_units (l # us)"
      using False by auto
    ultimately show ?thesis
      by (simp only: well_formed_append)
  qed
qed

lemma well_formed_single: "\<not> is_surrogate (unat c) \<Longrightarrow> well_formed [c]"
  by (simp add: well_formed_def)

lemma well_formed_QuoteJSONString: "well_formed (QuoteJSONString s)"
  unfolding QuoteJSONString_def
  by (intro well_formed_append well_formed_quote_code_units well_formed_single)
     (simp_all add: is_surrogate_def)

lemma well_formed_join_comma:
  "\<forall>x\<in>set xs. well_formed x \<Longrightarrow> well_formed (join_comma xs)"
proof (induction xs rule: join_comma.induct)
  case 1
  show ?case by (simp add: well_formed_def)
next
  case (2 x)
  then show ?case by simp
next
  case (3 x y zs)
  have "well_formed [0x2C]"
    by (rule well_formed_single) (simp add: is_surrogate_def)
  moreover have "well_formed x" "well_formed (join_comma (y # zs))"
    using 3 by simp_all
  ultimately have "well_formed (x @ [0x2C] @ join_comma (y # zs))"
    by (intro well_formed_append)
  then show ?case
    by simp
qed

lemma well_formed_member:
  assumes "well_formed (JSON_stringify v)"
  shows "well_formed (QuoteJSONString k @ 0x3A # JSON_stringify v)"
proof -
  have "well_formed [0x3A]"
    by (rule well_formed_single) (simp add: is_surrogate_def)
  with assms have "well_formed (QuoteJSONString k @ [0x3A] @ JSON_stringify v)"
    by (intro well_formed_append well_formed_QuoteJSONString)
  then show ?thesis by simp
qed

lemma well_formed_object:
  assumes "\<forall>p\<in>set ps. well_formed (JSON_stringify (snd p))"
  shows "well_formed (JSON_stringify (JObject ps))"
proof -
  have "well_formed (join_comma
      (map (\<lambda>p. QuoteJSONString (fst p) @ [0x3A] @ JSON_stringify (snd p)) ps))"
    using assms by (intro well_formed_join_comma) (auto intro: well_formed_member)
  moreover have "well_formed [0x7B]" "well_formed [0x7D]"
    by (simp_all add: well_formed_def is_surrogate_def)
  ultimately show ?thesis
    unfolding JSON_stringify.simps by (intro well_formed_append)
qed

lemma well_formed_JString: "is_JString v \<Longrightarrow> well_formed (JSON_stringify v)"
  by (cases v) (simp_all add: is_JString_def well_formed_QuoteJSONString)

lemma well_formed_headers: "is_headers v \<Longrightarrow> well_formed (JSON_stringify v)"
proof (cases v)
  case (JObject hs)
  assume "is_headers v"
  with JObject have "\<forall>h\<in>set hs. is_JString (snd h)"
    by (simp add: is_headers_def list_all_iff)
  then have "\<forall>h\<in>set hs. well_formed (JSON_stringify (snd h))"
    using well_formed_JString by blast
  then show ?thesis
    unfolding JObject by (rule well_formed_object)
qed (simp_all add: is_headers_def)

text \<open>The document of a request is a string that UTF-8 represents exactly.\<close>

lemma well_formed_request:
  assumes "is_PNPRequest r"
  shows "well_formed (JSON_stringify r)"
proof (cases r)
  case (JObject ps)
  have d: "distinct (map fst ps)"
    and ks: "set (map fst ps) = {ascii ''method'', ascii ''path'', ascii ''headers'', ascii ''body''}"
    and m: "map_of ps (ascii ''method'') = Some (JString (ascii ''get''))
         \<or> map_of ps (ascii ''method'') = Some (JString (ascii ''post''))"
    and p: "case map_of ps (ascii ''path'') of Some p \<Rightarrow> is_JString p | None \<Rightarrow> False"
    and h: "case map_of ps (ascii ''headers'') of Some h \<Rightarrow> is_headers h | None \<Rightarrow> False"
    and b: "case map_of ps (ascii ''body'') of Some b \<Rightarrow> is_JString b | None \<Rightarrow> False"
    using assms unfolding JObject is_PNPRequest_def by (simp_all only: json.case)
  have "well_formed (JSON_stringify v)" if "(k, v) \<in> set ps" for k v
  proof -
    have mo: "map_of ps k = Some v"
      using d that by simp
    have "k \<in> {ascii ''method'', ascii ''path'', ascii ''headers'', ascii ''body''}"
      using that ks by force
    then consider "k = ascii ''method''" | "k = ascii ''path''" | "k = ascii ''headers''"
      | "k = ascii ''body''"
      by blast
    then show ?thesis
    proof cases
      case 1
      with m mo show ?thesis
        by (auto simp: well_formed_QuoteJSONString)
    next
      case 2
      with p mo show ?thesis
        by (simp add: well_formed_JString)
    next
      case 3
      with h mo show ?thesis
        by (simp add: well_formed_headers)
    next
      case 4
      with b mo show ?thesis
        by (simp add: well_formed_JString)
    qed
  qed
  then have "\<forall>p\<in>set ps. well_formed (JSON_stringify (snd p))"
    by auto
  then show ?thesis
    unfolding JObject by (rule well_formed_object)
qed (use assms in \<open>simp_all add: is_PNPRequest_def\<close>)

section \<open>The JSON reader is a recursive descent\<close>

lemma length_skip_ws: "length (skip_ws s) \<le> length s"
  by (simp add: skip_ws_def length_dropWhile_le)

lemma skip_ws_Cons: "skip_ws s = c # cs \<Longrightarrow> length cs < length s"
  using length_skip_ws [of s] by simp

lemma parse_string_shorter: "parse_string s = Some (t, rest) \<Longrightarrow> length rest < length s"
proof (induction "length s" arbitrary: s t rule: less_induct)
  case less
  have ih: "length rest < length s'"
    if "parse_string s' = Some (t', rest)" "length s' < length s" for s' t'
    using less.hyps [OF that(2) that(1)] .
  from less.prems obtain c cs where s: "s = c # cs"
    by (cases s) auto
  have step: "length rest \<le> length cs"
    if "parse_string s' = Some (t', rest)" "length s' \<le> length cs" for s' t'
    using ih [OF that(1)] that(2) s by simp
  from less.prems show ?case
    unfolding s
    by (auto split: if_splits list.splits option.splits dest: step)
qed

lemma parse_number_shorter: "parse_number s = Some (t, rest) \<Longrightarrow> length rest < length s"
proof -
  assume a: "parse_number s = Some (t, rest)"
  have R: "length ys \<le> length xs" if "dropWhile is_digit xs = ys" for xs ys
    using that length_dropWhile_le [of is_digit xs] by simp
  have d: "length (dropWhile is_digit xs) \<le> n" if "length xs \<le> n" for xs n
    using that length_dropWhile_le [of is_digit xs] by simp
  from a show ?thesis
    unfolding parse_number_def Let_def
    by (auto split: list.splits if_splits option.splits prod.splits
        simp: less_Suc_eq_le dest!: R intro!: d)
qed

text \<open>Each of the three readers consumes text, so the tests on the lengths never fail.\<close>

lemma parse_shorter:
  "(parse_value s = Some (v, rest) \<longrightarrow> length rest < length s)
   \<and> (parse_elements acc s = Some (vs, rest) \<longrightarrow> length rest < length s)
   \<and> (parse_members pacc s = Some (ps, rest) \<longrightarrow> length rest < length s)"
proof (induction "length s" arbitrary: s v rest acc vs pacc ps rule: less_induct)
  case less
  have ihe: "length rest' < length s'"
    if "parse_elements acc' s' = Some (vs', rest')" "length s' < length s" for acc' s' vs' rest'
    using less.hyps [OF that(2)] that(1) by blast
  have ihm: "length rest' < length s'"
    if "parse_members acc' s' = Some (ps', rest')" "length s' < length s" for acc' s' ps' rest'
    using less.hyps [OF that(2)] that(1) by blast
  have ihv: "length rest' < length s'"
    if "parse_value s' = Some (v', rest')" "length s' < length s" for s' v' rest'
    using less.hyps [OF that(2)] that(1) by blast
  have v: "length rest < length s" if pv: "parse_value s = Some (v, rest)" for v rest
  proof -
    from pv obtain c cs where sk: "skip_ws s = c # cs"
      by (subst (asm) parse_value.simps) (auto split: list.splits)
    have lcs: "length cs < length s"
      using sk by (rule skip_ws_Cons)
    consider (obj) "c = 0x7B" | (arr) "c \<noteq> 0x7B" "c = 0x5B" | (str) "c \<noteq> 0x7B" "c \<noteq> 0x5B" "c = 0x22"
      | (other) "c \<noteq> 0x7B" "c \<noteq> 0x5B" "c \<noteq> 0x22"
      by blast
    then show ?thesis
    proof cases
      case obj
      with pv sk obtain d ds where sd: "skip_ws cs = d # ds"
        by (subst (asm) parse_value.simps) (auto split: list.splits)
      have lds: "length ds < length cs"
        using sd by (rule skip_ws_Cons)
      show ?thesis
      proof (cases "d = 0x7D")
        case True
        with pv sk sd obj have "rest = ds"
          by (subst (asm) parse_value.simps) simp
        with lds lcs show ?thesis by simp
      next
        case False
        with pv sk sd obj obtain ps where "parse_members [] (d # ds) = Some (ps, rest)"
          by (subst (asm) parse_value.simps) (auto split: option.splits)
        from ihm [OF this] lds lcs show ?thesis by simp
      qed
    next
      case arr
      with pv sk obtain d ds where sd: "skip_ws cs = d # ds"
        by (subst (asm) parse_value.simps) (auto split: list.splits)
      have lds: "length ds < length cs"
        using sd by (rule skip_ws_Cons)
      show ?thesis
      proof (cases "d = 0x5D")
        case True
        with pv sk sd arr have "rest = ds"
          by (subst (asm) parse_value.simps) simp
        with lds lcs show ?thesis by simp
      next
        case False
        with pv sk sd arr obtain vs where "parse_elements [] (d # ds) = Some (vs, rest)"
          by (subst (asm) parse_value.simps) (auto split: option.splits)
        from ihe [OF this] lds lcs show ?thesis by simp
      qed
    next
      case str
      with pv sk obtain t where "parse_string cs = Some (t, rest)"
        by (subst (asm) parse_value.simps) (auto split: option.splits)
      from parse_string_shorter [OF this] lcs show ?thesis by simp
    next
      case other
      with pv sk have "rest = drop 4 (c # cs) \<or> rest = drop 5 (c # cs)
          \<or> (\<exists>t. parse_number (c # cs) = Some (t, rest))"
        by (subst (asm) parse_value.simps) (auto split: option.splits if_splits)
      then have "length rest < length (c # cs)"
        by (auto dest: parse_number_shorter)
      with lcs show ?thesis by simp
    qed
  qed
  have e: "length rest < length s" if pe: "parse_elements acc s = Some (vs, rest)" for acc vs rest
  proof -
    from pe obtain v r1 d ds where pv: "parse_value s = Some (v, r1)" and l1: "length r1 < length s"
      and sd: "skip_ws r1 = d # ds"
      by (subst (asm) parse_elements.simps) (auto split: option.splits if_splits list.splits)
    have lds: "length ds < length r1"
      using sd by (rule skip_ws_Cons)
    from pe pv l1 sd have "rest = ds \<or> parse_elements (acc @ [v]) ds = Some (vs, rest)"
      by (subst (asm) parse_elements.simps) (auto split: if_splits)
    then show ?thesis
    proof
      assume "rest = ds"
      with lds l1 show ?thesis by simp
    next
      assume "parse_elements (acc @ [v]) ds = Some (vs, rest)"
      from ihe [OF this] lds l1 show ?thesis by simp
    qed
  qed
  have m: "length rest < length s" if pm: "parse_members pacc s = Some (ps, rest)" for pacc ps rest
  proof -
    from pm obtain q cs k r1 d ds v r2 e es where sk: "skip_ws s = q # cs"
      and ps: "parse_string cs = Some (k, r1)" and sd: "skip_ws r1 = d # ds"
      and l1: "length ds < length s"
      and pv: "parse_value ds = Some (v, r2)" and l2: "length r2 < length ds"
      and se: "skip_ws r2 = e # es" and q: "q = 0x22" and d: "d = 0x3A"
      by (subst (asm) parse_members.simps) (auto split: option.splits if_splits list.splits)
    have les: "length es < length r2"
      using se by (rule skip_ws_Cons)
    from pm sk ps sd l1 pv l2 se q d
    have "rest = es \<or> parse_members (define_property pacc k v) es = Some (ps, rest)"
      by (subst (asm) parse_members.simps) (auto split: if_splits)
    then show ?thesis
    proof
      assume "rest = es"
      with les l2 l1 show ?thesis by simp
    next
      assume "parse_members (define_property pacc k v) es = Some (ps, rest)"
      from ihm [OF this] les l2 l1 show ?thesis by simp
    qed
  qed
  from v e m show ?case
    by blast
qed

lemma parse_value_shorter: "parse_value s = Some (v, rest) \<Longrightarrow> length rest < length s"
  using parse_shorter [of s v rest] by blast

text \<open>The readers without the tests on the lengths: plain recursive descent.\<close>

lemma parse_elements_eq:
  "parse_elements acc s =
     (case parse_value s of
        None \<Rightarrow> None
      | Some (v, rest) \<Rightarrow>
          (case skip_ws rest of
             [] \<Rightarrow> None
           | d # ds \<Rightarrow>
               if d = 0x2C then parse_elements (acc @ [v]) ds
               else if d = 0x5D then Some (acc @ [v], ds)
               else None))"
  by (subst parse_elements.simps) (auto split: option.splits dest: parse_value_shorter)

lemma parse_members_eq:
  "parse_members acc s =
     (case skip_ws s of
        [] \<Rightarrow> None
      | q # cs \<Rightarrow>
          if q \<noteq> 0x22 then None
          else
            (case parse_string cs of
               None \<Rightarrow> None
             | Some (k, r1) \<Rightarrow>
                 (case skip_ws r1 of
                    [] \<Rightarrow> None
                  | d # ds \<Rightarrow>
                      if d \<noteq> 0x3A then None
                      else
                        (case parse_value ds of
                           None \<Rightarrow> None
                         | Some (v, rest) \<Rightarrow>
                             (case skip_ws rest of
                                [] \<Rightarrow> None
                              | e # es \<Rightarrow>
                                  if e = 0x2C then parse_members (define_property acc k v) es
                                  else if e = 0x7D then Some (define_property acc k v, es)
                                  else None)))))"
proof -
  have "length ds < length s"
    if "skip_ws s = q # cs" "parse_string cs = Some (k, r1)" "skip_ws r1 = d # ds"
    for q cs k r1 d ds
    using skip_ws_Cons [OF that(1)] parse_string_shorter [OF that(2)] skip_ws_Cons [OF that(3)]
    by simp
  then show ?thesis
    by (subst parse_members.simps)
       (auto split: option.splits list.splits dest: parse_value_shorter)
qed

section \<open>Evaluating the JSON reader and writer\<close>

lemmas evaluate_json =
  JSON_parse_def parse_value.simps parse_members.simps parse_elements.simps
  parse_number_def skip_ws_def is_ws_def is_digit_def define_property_def array_index_def
  jtext_def ascii_def unhex_def Let_def

lemma JSON_parse_empty_object: "JSON_parse (jtext ''{}'') = Inr (JObject [])"
  by (simp add: evaluate_json)

lemma JSON_parse_response:
  "JSON_parse (jtext ''{`status`:200,`headers`:{},`body`:``}'') =
     Inr (JObject [(ascii ''status'', JNumber (ascii ''200'')),
                   (ascii ''headers'', JObject []), (ascii ''body'', JString [])])"
  by (simp add: evaluate_json)

lemma JSON_parse_not_json: "JSON_parse (jtext ''{`status`:200,'') = Inl SyntaxError"
  by (simp add: evaluate_json)

lemma JSON_stringify_example_request:
  "JSON_stringify example_request = jtext ''{`method`:`get`,`path`:`/`,`headers`:{},`body`:``}''"
  by (simp add: example_request_def QuoteJSONString_def escape_unit_def jtext_def ascii_def
      is_surrogate_def is_high_surrogate_def)

section \<open>Round trip\<close>

lemma is_PNPRequest_example: "is_PNPRequest example_request"
  by (simp add: is_PNPRequest_def example_request_def is_JString_def is_headers_def ascii_def)

text \<open>
  Claim C1. For every string \<open>x\<close> that UTF-8 represents (no unpaired surrogate), the
  empty string included, \<open>encrypt\<close> returns a payload and \<open>decrypt\<close> on the same codec
  returns \<open>x\<close> for it; so it is for the JSON document of every request. The same holds
  for the codec of \<^verbatim>\<open>PapayaClient.ts\<close> whenever its \<open>encrypt\<close> returns, which it does when
  the constructor was given a 32-byte key and a 16-byte IV.
\<close>

theorem decrypt_encrypt_roundtrip:
  assumes "aes256_ok A" and "this = fst (PNPEncryption_new g0)"
  shows "(well_formed x \<longrightarrow>
            (\<exists>payload. fst (encrypt A this x g) = Inr payload
               \<and> decrypt A this payload = Inr x))
       \<and> (is_PNPRequest r \<longrightarrow>
            (\<exists>payload. fst (encrypt A this (JSON_stringify r) g) = Inr payload
               \<and> decrypt A this payload = Inr (JSON_stringify r)))
       \<and> (\<exists>payload. fst (encrypt A this [] g) = Inr payload \<and> decrypt A this payload = Inr [])
       \<and> (well_formed x \<and> PapayaClient_encrypt A (PapayaClient_PNPEncryption_new k v) x = Inr e \<longrightarrow>
            PapayaClient_decrypt A (PapayaClient_PNPEncryption_new k v) (utf8_encode e) = Inr x)
       \<and> (length k = 32 \<and> length v = 16 \<longrightarrow>
            (\<exists>e. PapayaClient_encrypt A (PapayaClient_PNPEncryption_new k v) x = Inr e))"
proof -
  have alg: "algorithm this = ''aes-256-cbc''" and k: "length (key this) = 32"
    unfolding assms(2) by (rule PNPEncryption_new_fields)+
  note rt = decrypt_encrypt [OF assms(1) alg k]
  have "well_formed ([] :: jsstring)"
    by (simp add: well_formed_def)
  then have "\<exists>payload. fst (encrypt A this [] g) = Inr payload \<and> decrypt A this payload = Inr []"
    by (rule rt)
  moreover have "\<exists>e. PapayaClient_encrypt A (PapayaClient_PNPEncryption_new k v) x = Inr e"
    if "length k = 32" "length v = 16"
    using PapayaClient_encrypt_eq [OF assms(1) that refl] by blast
  ultimately show ?thesis
    using rt well_formed_request PapayaClient_decrypt_encrypt [OF assms(1)] by blast
qed

theorem decrypt_encrypt_roundtrip_witness:
  "(\<exists>payload. fst (encrypt stand_in_cipher example_codec (ascii ''hi'') example_rest) = Inr payload
      \<and> decrypt stand_in_cipher example_codec payload = Inr (ascii ''hi''))
   \<and> (\<exists>payload. fst (encrypt stand_in_cipher example_codec (JSON_stringify example_request)
                        example_rest) = Inr payload
      \<and> decrypt stand_in_cipher example_codec payload = Inr (JSON_stringify example_request))
   \<and> (\<exists>e. PapayaClient_encrypt stand_in_cipher PapayaClient_example_codec (ascii ''hi'') = Inr e
      \<and> PapayaClient_decrypt stand_in_cipher PapayaClient_example_codec (utf8_encode e) =
          Inr (ascii ''hi''))"
proof -
  have w: "well_formed (ascii ''hi'')"
    by (simp add: well_formed_def ascii_def is_surrogate_def)
  have l: "length (key example_codec) = 32 \<and> length (fst (randomBytes 16 example_rest)) = 16"
    by (simp add: example_codec_fields length_randomBytes)
  note t = decrypt_encrypt_roundtrip [OF stand_in_cipher_ok example_codec_def,
      of "ascii ''hi''" example_rest example_request "key example_codec"
        "fst (randomBytes 16 example_rest)"]
  from t l obtain e where
    e: "PapayaClient_encrypt stand_in_cipher PapayaClient_example_codec (ascii ''hi'') = Inr e"
    unfolding PapayaClient_example_codec_def by blast
  with t w have "PapayaClient_decrypt stand_in_cipher PapayaClient_example_codec (utf8_encode e) =
      Inr (ascii ''hi'')"
    unfolding PapayaClient_example_codec_def by blast
  with e t w is_PNPRequest_example show ?thesis
    by blast
qed

section \<open>The client\<close>

lemma PNPConnection_new_socket [simp]: "socket (PNPConnection_new h p mode sock) = sock"
  by (simp add: PNPConnection_new_def)

lemma PNP_new_fields:
  "encryption (fst (PNP_new h p mode sock g)) = fst (PNPEncryption_new g)"
  "connection (fst (PNP_new h p mode sock g)) = PNPConnection_new h p mode sock"
  "socket (connection (fst (PNP_new h p mode sock g))) = sock"
  "snd (PNP_new h p mode sock g) = snd (PNPEncryption_new g)"
  by (simp_all add: PNP_new_def PNPConnection_new_def case_prod_beta)

lemma example_client_fields:
  "encryption (example_client chunk) = example_codec"
  "socket (connection (example_client chunk)) = example_socket chunk"
  by (simp_all add: example_client_def PNP_new_fields example_codec_def)

text \<open>One call of \<open>sendRequest\<close> on a socket that accepts the write.\<close>

lemma sendRequest_run:
  assumes "encrypt A (encryption this) (JSON_stringify request) g = (Inr encrypted, g')"
    and "write_fault (socket (connection this)) = None"
  shows "sendRequest A this request g =
     (case events (socket (connection this)) of
        [] \<Rightarrow> None
      | ev # es \<Rightarrow>
          Some (case ev of
                  ErrorEvent err \<Rightarrow> Inl (SocketError err)
                | DataEvent payload \<Rightarrow>
                    (case decrypt A (encryption this) payload of
                       Inl e \<Rightarrow> Inl e
                     | Inr text \<Rightarrow> JSON_parse text),
                this\<lparr>connection := (connection this)
                  \<lparr>socket := (socket (connection this))
                     \<lparr>written := written (socket (connection this)) @ [encrypted],
                      events := es\<rparr>\<rparr>\<rparr>,
                g'))"
  using assms
  by (auto simp: sendRequest_def send_def receive_def Let_def
      split: list.splits socket_event.splits sum.splits)

lemma encrypt_returns:
  assumes "aes256_ok A" and "algorithm this = ''aes-256-cbc''" and "length (key this) = 32"
  shows "\<exists>encrypted. encrypt A this data g = (Inr encrypted, snd (randomBytes 16 g))"
  using encrypt_eq [OF assms refl refl] by blast

lemma JSON_parse_cases: "JSON_parse text = Inl SyntaxError \<or> (\<exists>v. JSON_parse text = Inr v)"
  by (auto simp: JSON_parse_def split: option.splits)

text \<open>
  Claim C5, as the code has it. When the socket accepts the write and delivers a chunk
  that decrypts to \<open>text\<close>, \<open>sendRequest\<close> returns what \<^verbatim>\<open>JSON.parse\<close> makes of \<open>text\<close>:
  it throws \<open>SyntaxError\<close> exactly when \<open>text\<close> is not JSON text and returns the parsed
  value otherwise, whatever properties that value has. It makes no check of the
  properties \<^verbatim>\<open>status\<close>, \<^verbatim>\<open>headers\<close> and \<^verbatim>\<open>body\<close>.  So does \<open>sendRequest\<close> of
  \<^verbatim>\<open>PapayaClient.ts\<close>.
\<close>

theorem sendRequest_response:
  assumes "aes256_ok A" and "this = fst (PNP_new h p mode sock g0)"
    and "write_fault sock = None" and "events sock = DataEvent payload # es"
    and "decrypt A (encryption this) payload = Inr text"
  shows "(\<exists>this' g'. sendRequest A this request g = Some (JSON_parse text, this', g'))
       \<and> (JSON_parse text = Inl SyntaxError \<or> (\<exists>v. JSON_parse text = Inr v))
       \<and> (length k = 32 \<and> length v = 16
            \<and> PapayaClient_decrypt A (PapayaClient_PNPEncryption_new k v) payload = Inr text' \<longrightarrow>
            (\<exists>client'. PapayaClient_sendRequest A (PNPClient_new h p k v sock) request =
               Some (JSON_parse text', client')))"
proof -
  have alg: "algorithm (encryption this) = ''aes-256-cbc''"
    and k: "length (key (encryption this)) = 32"
    and s: "socket (connection this) = sock"
    unfolding assms(2) PNP_new_fields by (rule PNPEncryption_new_fields PNPConnection_new_socket)+
  obtain encrypted where
    "encrypt A (encryption this) (JSON_stringify request) g = (Inr encrypted, snd (randomBytes 16 g))"
    using encrypt_returns [OF assms(1) alg k] by blast
  then have "\<exists>this' g'. sendRequest A this request g = Some (JSON_parse text, this', g')"
    using assms(3-5) by (simp add: sendRequest_run s)
  moreover have "\<exists>client'. PapayaClient_sendRequest A (PNPClient_new h p k v sock) request =
      Some (JSON_parse text', client')"
    if "length k = 32" "length v = 16"
      "PapayaClient_decrypt A (PapayaClient_PNPEncryption_new k v) payload = Inr text'"
    using PapayaClient_encrypt_eq [OF assms(1) that(1,2) refl, of "JSON_stringify request"]
      that(3) assms(3,4)
    by (simp add: PapayaClient_sendRequest_def PNPClient_new_def PNPConnection_new_def
        PapayaClient_send_def receive_def)
  ultimately show ?thesis
    using JSON_parse_cases by blast
qed

section \<open>What sendRequest returns\<close>

text \<open>The outcome of \<open>decrypt\<close> on the bytes of an ASCII literal, with the example codec.\<close>

lemma decrypt_example_payload:
  assumes "\<forall>c\<in>set s. (of_char c :: nat) < 128"
    and "hex_decode (takeWhile (\<lambda>c. c \<noteq> colon) (ascii s)) = iv"
    and "hex_decode (tl (dropWhile (\<lambda>c. c \<noteq> colon) (ascii s))) = ct"
    and "cbc_decrypt stand_in_cipher (key example_codec) iv ct = pt"
    and "n = unat (last pt)"
  shows "decrypt stand_in_cipher example_codec (utf8_encode (ascii s)) =
     (if length iv \<noteq> 16 then Inl ERR_CRYPTO_INVALID_IV
      else if ct = [] \<or> length ct mod 16 \<noteq> 0 then Inl ERR_OSSL_WRONG_FINAL_BLOCK_LENGTH
      else if n = 0 \<or> 16 < n \<or> \<not> list_all (\<lambda>b. unat b = n) (drop (length pt - n) pt)
      then Inl ERR_OSSL_BAD_DECRYPT
      else Inr (utf8_decode (take (length pt - n) pt)))"
  using decrypt_cases [OF stand_in_cipher_ok example_codec_fields refl refl refl refl,
      of "utf8_encode (ascii s)"]
  unfolding utf8_decode_encode_literal [OF assms(1)] assms(2,3,4) assms(5) [symmetric] .

lemma decrypt_empty_object:
  "decrypt stand_in_cipher example_codec
     (utf8_encode (ascii ''00000000000000000000000000000000:7e871f262d343b424950575e656c737a'')) =
   Inr (jtext ''{}'')"
proof -
  let ?s = "''00000000000000000000000000000000:7e871f262d343b424950575e656c737a''"
  have iv: "hex_decode (takeWhile (\<lambda>c. c \<noteq> colon) (ascii ?s)) = replicate 16 0"
    by (simp add: evaluate_hex replicate_numeral)
  have ct: "hex_decode (tl (dropWhile (\<lambda>c. c \<noteq> colon) (ascii ?s))) =
      [126, 135, 31, 38, 45, 52, 59, 66, 73, 80, 87, 94, 101, 108, 115, 122]"
    by (simp add: evaluate_hex)
  have pt: "cbc_decrypt stand_in_cipher (key example_codec) (replicate 16 0)
      [126, 135, 31, 38, 45, 52, 59, 66, 73, 80, 87, 94, 101, 108, 115, 122] =
      [123, 125, 14, 14, 14, 14, 14, 14, 14, 14, 14, 14, 14, 14, 14, 14]"
    by (simp add: key_example_codec evaluate_cbc)
  have t: "utf8_decode [123, 125] = jtext ''{}''"
    by (simp add: utf8_decode_ascii jtext_def)
  show ?thesis
    using decrypt_example_payload [OF _ iv ct pt refl] by (simp add: t)
qed

lemma decrypt_response:
  "decrypt stand_in_cipher example_codec
     (utf8_encode (ascii ''00000000000000000000000000000000:7e2c848c809aa2a75d7c7b80878a87d41e57f101110fadd16143a0f23c4348193f77e43b8b2ad30ea58af4498ea6a87e'')) =
   Inr (jtext ''{`status`:200,`headers`:{},`body`:``}'')"
proof -
  let ?s = "''00000000000000000000000000000000:7e2c848c809aa2a75d7c7b80878a87d41e57f101110fadd16143a0f23c4348193f77e43b8b2ad30ea58af4498ea6a87e''"
  have iv: "hex_decode (takeWhile (\<lambda>c. c \<noteq> colon) (ascii ?s)) = replicate 16 0"
    by (simp add: evaluate_hex replicate_numeral)
  have ct: "hex_decode (tl (dropWhile (\<lambda>c. c \<noteq> colon) (ascii ?s))) =
      [126, 44, 132, 140, 128, 154, 162, 167, 93, 124, 123, 128, 135, 138, 135, 212,
       30, 87, 241, 1, 17, 15, 173, 209, 97, 67, 160, 242, 60, 67, 72, 25,
       63, 119, 228, 59, 139, 42, 211, 14, 165, 138, 244, 73, 142, 166, 168, 126]"
    by (simp add: evaluate_hex)
  have pt: "cbc_decrypt stand_in_cipher (key example_codec) (replicate 16 0)
      [126, 44, 132, 140, 128, 154, 162, 167, 93, 124, 123, 128, 135, 138, 135, 212,
       30, 87, 241, 1, 17, 15, 173, 209, 97, 67, 160, 242, 60, 67, 72, 25,
       63, 119, 228, 59, 139, 42, 211, 14, 165, 138, 244, 73, 142, 166, 168, 126] =
      [123, 34, 115, 116, 97, 116, 117, 115, 34, 58, 50, 48, 48, 44, 34, 104,
       101, 97, 100, 101, 114, 115, 34, 58, 123, 125, 44, 34, 98, 111, 100, 121,
       34, 58, 34, 34, 125, 11, 11, 11, 11, 11, 11, 11, 11, 11, 11, 11]"
    by (simp add: key_example_codec evaluate_cbc)
  have t: "utf8_decode [123, 34, 115, 116, 97, 116, 117, 115, 34, 58, 50, 48, 48, 44, 34, 104,
       101, 97, 100, 101, 114, 115, 34, 58, 123, 125, 44, 34, 98, 111, 100, 121,
       34, 58, 34, 34, 125] = jtext ''{`status`:200,`headers`:{},`body`:``}''"
    by (simp add: utf8_decode_ascii jtext_def)
  show ?thesis
    using decrypt_example_payload [OF _ iv ct pt refl] by (simp add: t)
qed

theorem sendRequest_response_witness:
  "\<exists>this' g'.
     sendRequest stand_in_cipher
       (example_client (utf8_encode (ascii ''00000000000000000000000000000000:7e2c848c809aa2a75d7c7b80878a87d41e57f101110fadd16143a0f23c4348193f77e43b8b2ad30ea58af4498ea6a87e'')))
       example_request example_rest =
     Some (Inr (JObject [(ascii ''status'', JNumber (ascii ''200'')),
                         (ascii ''headers'', JObject []), (ascii ''body'', JString [])]),
           this', g')"
proof -
  let ?chunk = "utf8_encode (ascii ''00000000000000000000000000000000:7e2c848c809aa2a75d7c7b80878a87d41e57f101110fadd16143a0f23c4348193f77e43b8b2ad30ea58af4498ea6a87e'')"
  have w: "write_fault (example_socket ?chunk) = None"
    and ev: "events (example_socket ?chunk) = DataEvent ?chunk # []"
    by (simp_all add: example_socket_def)
  have d: "decrypt stand_in_cipher (encryption (example_client ?chunk)) ?chunk =
      Inr (jtext ''{`status`:200,`headers`:{},`body`:``}'')"
    unfolding example_client_fields by (rule decrypt_response)
  from sendRequest_response [OF stand_in_cipher_ok example_client_def w ev d,
      of example_request example_rest]
  show ?thesis
    by (simp add: JSON_parse_response)
qed

text \<open>
  A response without the properties of \<^verbatim>\<open>PNPResponse\<close>, which \<open>sendRequest\<close> returns: for
  every block cipher \<open>C\<close>, when the chunk that the socket delivers is the payload that
  the client's codec returns for the text \<^verbatim>\<open>{}\<close>, \<open>sendRequest\<close> returns the empty object.
\<close>

theorem sendRequest_unchecked_response_counterexample:
  "\<forall>C. \<exists>chunk.
     fst (encrypt (Rep_block_cipher C) example_codec (jtext ''{}'') example_rest) = Inr chunk
     \<and> map_option fst
         (sendRequest (Rep_block_cipher C) (example_client chunk) example_request example_rest) =
       Some (Inr (JObject []))
     \<and> \<not> has_response_fields (JObject [])"
proof
  fix C
  let ?A = "Rep_block_cipher C"
  have "well_formed (jtext ''{}'')"
    by (simp add: well_formed_def jtext_def is_surrogate_def)
  from decrypt_encrypt [OF block_cipher_ok example_codec_fields this]
  obtain chunk where
    c: "fst (encrypt ?A example_codec (jtext ''{}'') example_rest) = Inr chunk"
    and d: "decrypt ?A example_codec chunk = Inr (jtext ''{}'')"
    by blast
  obtain encrypted where e: "encrypt ?A (encryption (example_client chunk))
      (JSON_stringify example_request) example_rest =
      (Inr encrypted, snd (randomBytes 16 example_rest))"
    unfolding example_client_fields
    using encrypt_returns [OF block_cipher_ok example_codec_fields] by blast
  have "write_fault (socket (connection (example_client chunk))) = None"
    by (simp add: example_client_fields example_socket_def)
  from sendRequest_run [OF e this]
  have "map_option fst (sendRequest ?A (example_client chunk) example_request example_rest) =
      Some (Inr (JObject []))"
    by (simp add: example_client_fields example_socket_def d JSON_parse_empty_object)
  with c show "\<exists>chunk.
     fst (encrypt ?A example_codec (jtext ''{}'') example_rest) = Inr chunk
     \<and> map_option fst (sendRequest ?A (example_client chunk) example_request example_rest) =
       Some (Inr (JObject []))
     \<and> \<not> has_response_fields (JObject [])"
    by (auto simp: has_response_fields_def)
qed

section \<open>The sequence of a request\<close>

lemma PapayaClient_sendRequest_run:
  assumes "PapayaClient_encrypt A (pc_encryption this) (JSON_stringify request) = Inr encrypted"
    and "write_fault (socket (pc_connection this)) = None"
  shows "PapayaClient_sendRequest A this request =
     (case events (socket (pc_connection this)) of
        [] \<Rightarrow> None
      | ev # es \<Rightarrow>
          Some (case ev of
                  ErrorEvent err \<Rightarrow> Inl (SocketError err)
                | DataEvent payload \<Rightarrow>
                    (case PapayaClient_decrypt A (pc_encryption this) payload of
                       Inl e \<Rightarrow> Inl e
                     | Inr text \<Rightarrow> JSON_parse text),
                this\<lparr>pc_connection := (pc_connection this)
                  \<lparr>socket := (socket (pc_connection this))
                     \<lparr>written := written (socket (pc_connection this)) @ [utf8_encode encrypted],
                      events := es\<rparr>\<rparr>\<rparr>))"
  using assms
  by (auto simp: PapayaClient_sendRequest_def PapayaClient_send_def receive_def Let_def
      split: list.splits socket_event.splits sum.splits)

lemma sendRequest_write_fault:
  assumes "encrypt A (encryption this) (JSON_stringify request) g = (Inr encrypted, g')"
    and "write_fault (socket (connection this)) = Some err"
  shows "sendRequest A this request g = Some (Inl (SocketError err), this, g')"
  using assms by (simp add: sendRequest_def send_def)

lemma PapayaClient_sendRequest_write_fault:
  assumes "PapayaClient_encrypt A (pc_encryption this) (JSON_stringify request) = Inr encrypted"
    and "write_fault (socket (pc_connection this)) = Some err"
  shows "PapayaClient_sendRequest A this request = Some (Inl JS_undefined, this)"
  using assms by (simp add: PapayaClient_sendRequest_def PapayaClient_send_def)

lemma PapayaClient_encrypt_cases:
  assumes ok: "aes256_ok A" and p: "p = 16 - length (utf8_encode data) mod 16"
  shows "PapayaClient_encrypt A (PapayaClient_PNPEncryption_new k v) data =
     (if length v \<noteq> 16 then Inl ERR_CRYPTO_INVALID_IV
      else if length k \<noteq> 32 then Inl ERR_CRYPTO_INVALID_KEYLEN
      else Inr (hex_encode (cbc_encrypt A k v (utf8_encode data @ replicate p (of_nat p)))))"
proof (cases "length k = 32 \<and> length v = 16")
  case True
  then show ?thesis
    using PapayaClient_encrypt_eq [OF ok _ _ p, of k v] by simp
next
  case False
  then show ?thesis
    by (auto simp: PapayaClient_encrypt_def PapayaClient_PNPEncryption_new_def createCipheriv_def)
qed

lemma PapayaClient_sendRequest_encrypt_throws:
  assumes "PapayaClient_encrypt A (pc_encryption this) (JSON_stringify request) = Inl e"
  shows "PapayaClient_sendRequest A this request = Some (Inl e, this)"
  using assms by (simp add: PapayaClient_sendRequest_def)

text \<open>
  Claim C6, as the code has it. \<open>sendRequest\<close> writes the request with
  \<^verbatim>\<open>JSON.stringify\<close>, which keeps the order of the request's own properties, and encrypts
  that document. In the client that draws its own key this never fails; the codec of
  \<^verbatim>\<open>PapayaClient.ts\<close> throws when its constructor was not given an IV of 16 bytes and a
  key of 32 bytes, and then nothing is sent. \<open>sendRequest\<close> sends the payload, once; when
  the write fails it throws (the socket's error, or \<^verbatim>\<open>undefined\<close> in \<^verbatim>\<open>PapayaClient.ts\<close>)
  and waits for nothing. Otherwise it waits for one event of the socket, and does not
  return when there is none; at an error event it throws the error; at a chunk of data it
  decrypts the chunk with the same codec and returns what \<^verbatim>\<open>JSON.parse\<close> makes of the
  text, or throws what \<open>decrypt\<close> threw. The codec is the same after the call.
\<close>

theorem sendRequest_sequence:
  assumes "aes256_ok A" and "this = fst (PNP_new h p mode sock g0)"
    and "client = PNPClient_new h p k v sock"
  shows "\<exists>encrypted.
      encrypt A (encryption this) (JSON_stringify request) g =
        (Inr encrypted, snd (randomBytes 16 g))
      \<and> (\<forall>err. write_fault sock = Some err \<longrightarrow>
            sendRequest A this request g =
              Some (Inl (SocketError err), this, snd (randomBytes 16 g)))
      \<and> (write_fault sock = None \<and> events sock = [] \<longrightarrow> sendRequest A this request g = None)
      \<and> (\<forall>ev es. write_fault sock = None \<and> events sock = ev # es \<longrightarrow>
            (\<exists>this'.
               sendRequest A this request g =
                 Some (case ev of
                         ErrorEvent err \<Rightarrow> Inl (SocketError err)
                       | DataEvent payload \<Rightarrow>
                           (case decrypt A (encryption this) payload of
                              Inl e \<Rightarrow> Inl e
                            | Inr text \<Rightarrow> JSON_parse text),
                       this', snd (randomBytes 16 g))
               \<and> written (socket (connection this')) = written sock @ [encrypted]
               \<and> events (socket (connection this')) = es
               \<and> encryption this' = encryption this))
      \<and> (\<forall>ps. request = JObject ps \<longrightarrow>
            JSON_stringify request =
              [0x7B]
              @ join_comma (map (\<lambda>p. QuoteJSONString (fst p) @ [0x3A] @ JSON_stringify (snd p)) ps)
              @ [0x7D])
      \<and> (length v \<noteq> 16 \<longrightarrow>
            PapayaClient_sendRequest A client request = Some (Inl ERR_CRYPTO_INVALID_IV, client))
      \<and> (length v = 16 \<and> length k \<noteq> 32 \<longrightarrow>
            PapayaClient_sendRequest A client request = Some (Inl ERR_CRYPTO_INVALID_KEYLEN, client))
      \<and> (length k = 32 \<and> length v = 16 \<longrightarrow>
            (\<exists>text.
               PapayaClient_encrypt A (pc_encryption client) (JSON_stringify request) = Inr text
               \<and> (\<forall>err. write_fault sock = Some err \<longrightarrow>
                     PapayaClient_sendRequest A client request = Some (Inl JS_undefined, client))
               \<and> (write_fault sock = None \<and> events sock = [] \<longrightarrow>
                     PapayaClient_sendRequest A client request = None)
               \<and> (\<forall>ev es. write_fault sock = None \<and> events sock = ev # es \<longrightarrow>
                     (\<exists>client'.
                        PapayaClient_sendRequest A client request =
                          Some (case ev of
                                  ErrorEvent err \<Rightarrow> Inl (SocketError err)
                                | DataEvent payload \<Rightarrow>
                                    (case PapayaClient_decrypt A (pc_encryption client) payload of
                                       Inl e \<Rightarrow> Inl e
                                     | Inr text \<Rightarrow> JSON_parse text),
                                client')
                        \<and> written (socket (pc_connection client')) =
                            written sock @ [utf8_encode text]
                        \<and> events (socket (pc_connection client')) = es
                        \<and> pc_encryption client' = pc_encryption client))))"
proof -
  have alg: "algorithm (encryption this) = ''aes-256-cbc''"
    and kl: "length (key (encryption this)) = 32"
    and s: "socket (connection this) = sock"
    unfolding assms(2) PNP_new_fields by (rule PNPEncryption_new_fields PNPConnection_new_socket)+
  obtain encrypted where e:
    "encrypt A (encryption this) (JSON_stringify request) g = (Inr encrypted, snd (randomBytes 16 g))"
    using encrypt_returns [OF assms(1) alg kl] by blast
  have fault: "sendRequest A this request g =
      Some (Inl (SocketError err), this, snd (randomBytes 16 g))"
    if "write_fault sock = Some err" for err
    using sendRequest_write_fault [OF e] that by (simp add: s)
  have none: "sendRequest A this request g = None"
    if "write_fault sock = None \<and> events sock = []"
    using sendRequest_run [OF e] that by (simp add: s)
  have some: "\<exists>this'.
      sendRequest A this request g =
        Some (case ev of
                ErrorEvent err \<Rightarrow> Inl (SocketError err)
              | DataEvent payload \<Rightarrow>
                  (case decrypt A (encryption this) payload of
                     Inl e \<Rightarrow> Inl e
                   | Inr text \<Rightarrow> JSON_parse text),
              this', snd (randomBytes 16 g))
      \<and> written (socket (connection this')) = written sock @ [encrypted]
      \<and> events (socket (connection this')) = es
      \<and> encryption this' = encryption this"
    if "write_fault sock = None \<and> events sock = ev # es" for ev es
    using sendRequest_run [OF e] that by (simp add: s)
  have f: "pc_encryption client = PapayaClient_PNPEncryption_new k v"
    "socket (pc_connection client) = sock"
    by (simp_all add: assms(3) PNPClient_new_def)
  note enc = PapayaClient_encrypt_cases [OF assms(1) refl, of k v "JSON_stringify request"]
  have bad_iv: "PapayaClient_sendRequest A client request = Some (Inl ERR_CRYPTO_INVALID_IV, client)"
    if "length v \<noteq> 16"
    using that enc by (intro PapayaClient_sendRequest_encrypt_throws) (simp add: f)
  have bad_key: "PapayaClient_sendRequest A client request =
      Some (Inl ERR_CRYPTO_INVALID_KEYLEN, client)"
    if "length v = 16 \<and> length k \<noteq> 32"
    using that enc by (intro PapayaClient_sendRequest_encrypt_throws) (simp add: f)
  have good: "\<exists>text.
      PapayaClient_encrypt A (pc_encryption client) (JSON_stringify request) = Inr text
      \<and> (\<forall>err. write_fault sock = Some err \<longrightarrow>
            PapayaClient_sendRequest A client request = Some (Inl JS_undefined, client))
      \<and> (write_fault sock = None \<and> events sock = [] \<longrightarrow>
            PapayaClient_sendRequest A client request = None)
      \<and> (\<forall>ev es. write_fault sock = None \<and> events sock = ev # es \<longrightarrow>
            (\<exists>client'.
               PapayaClient_sendRequest A client request =
                 Some (case ev of
                         ErrorEvent err \<Rightarrow> Inl (SocketError err)
                       | DataEvent payload \<Rightarrow>
                           (case PapayaClient_decrypt A (pc_encryption client) payload of
                              Inl e \<Rightarrow> Inl e
                            | Inr text \<Rightarrow> JSON_parse text),
                       client')
               \<and> written (socket (pc_connection client')) = written sock @ [utf8_encode text]
               \<and> events (socket (pc_connection client')) = es
               \<and> pc_encryption client' = pc_encryption client))"
    if kv: "length k = 32 \<and> length v = 16"
  proof -
    obtain enc where t: "PapayaClient_encrypt A (pc_encryption client) (JSON_stringify request) =
        Inr enc"
      unfolding f using PapayaClient_encrypt_cases [OF assms(1) refl, of k v] kv by simp
    have a: "PapayaClient_sendRequest A client request = Some (Inl JS_undefined, client)"
      if "write_fault sock = Some err" for err
      using PapayaClient_sendRequest_write_fault [OF t] that by (simp add: f)
    have b: "PapayaClient_sendRequest A client request = None"
      if "write_fault sock = None \<and> events sock = []"
      using PapayaClient_sendRequest_run [OF t] that by (simp add: f)
    have c: "\<exists>client'.
        PapayaClient_sendRequest A client request =
          Some (case ev of
                  ErrorEvent err \<Rightarrow> Inl (SocketError err)
                | DataEvent payload \<Rightarrow>
                    (case PapayaClient_decrypt A (pc_encryption client) payload of
                       Inl e \<Rightarrow> Inl e
                     | Inr text \<Rightarrow> JSON_parse text),
                client')
        \<and> written (socket (pc_connection client')) = written sock @ [utf8_encode enc]
        \<and> events (socket (pc_connection client')) = es
        \<and> pc_encryption client' = pc_encryption client"
      if "write_fault sock = None \<and> events sock = ev # es" for ev es
      using PapayaClient_sendRequest_run [OF t] that by (simp add: f(2))
    from t a b c show ?thesis
      by blast
  qed
  have str: "JSON_stringify request =
      [0x7B]
      @ join_comma (map (\<lambda>p. QuoteJSONString (fst p) @ [0x3A] @ JSON_stringify (snd p)) ps)
      @ [0x7D]" if "request = JObject ps" for ps
    using that by simp
  from e fault none some str bad_iv bad_key good show ?thesis
    by blast
qed


lemma utf8_encode_example_request:
  "utf8_encode (JSON_stringify example_request) =
    [123, 34, 109, 101, 116, 104, 111, 100, 34, 58, 34, 103, 101, 116, 34, 44,
     34, 112, 97, 116, 104, 34, 58, 34, 47, 34, 44, 34, 104, 101, 97, 100,
     101, 114, 115, 34, 58, 123, 125, 44, 34, 98, 111, 100, 121, 34, 58, 34, 34, 125]"
  unfolding JSON_stringify_example_request
  by (subst utf8_encode_ascii) (simp_all add: jtext_def)

lemma encrypt_example_request:
  "fst (encrypt stand_in_cipher example_codec (JSON_stringify example_request) example_rest) =
     Inr (utf8_encode (ascii ''e3eaf1f8ff060d141b222930373e454c:9bd2adb5aa948fa4745a54a7a9a8ccccbcacddd9e1dce2ba96bac1d5182b1214dce8bf13facdcccaef1af701b8678da2019fc23513e9eff81c56425f0dc7e818''))"
proof -
  have c: "cbc_encrypt stand_in_cipher (key example_codec)
      [227, 234, 241, 248, 255, 6, 13, 20, 27, 34, 41, 48, 55, 62, 69, 76]
      ([123, 34, 109, 101, 116, 104, 111, 100, 34, 58, 34, 103, 101, 116, 34, 44,
        34, 112, 97, 116, 104, 34, 58, 34, 47, 34, 44, 34, 104, 101, 97, 100,
        101, 114, 115, 34, 58, 123, 125, 44, 34, 98, 111, 100, 121, 34, 58, 34, 34, 125]
       @ replicate 14 14) =
      [155, 210, 173, 181, 170, 148, 143, 164, 116, 90, 84, 167, 169, 168, 204, 204,
       188, 172, 221, 217, 225, 220, 226, 186, 150, 186, 193, 213, 24, 43, 18, 20,
       220, 232, 191, 19, 250, 205, 204, 202, 239, 26, 247, 1, 184, 103, 141, 162,
       1, 159, 194, 53, 19, 233, 239, 248, 28, 86, 66, 95, 13, 199, 232, 24]"
    by (simp add: key_example_codec evaluate_cbc)
  have h: "hex_encode [227, 234, 241, 248, 255, 6, 13, 20, 27, 34, 41, 48, 55, 62, 69, 76]
      @ [colon]
      @ hex_encode [155, 210, 173, 181, 170, 148, 143, 164, 116, 90, 84, 167, 169, 168, 204, 204,
       188, 172, 221, 217, 225, 220, 226, 186, 150, 186, 193, 213, 24, 43, 18, 20,
       220, 232, 191, 19, 250, 205, 204, 202, 239, 26, 247, 1, 184, 103, 141, 162,
       1, 159, 194, 53, 19, 233, 239, 248, 28, 86, 66, 95, 13, 199, 232, 24] =
      ascii ''e3eaf1f8ff060d141b222930373e454c:9bd2adb5aa948fa4745a54a7a9a8ccccbcacddd9e1dce2ba96bac1d5182b1214dce8bf13facdcccaef1af701b8678da2019fc23513e9eff81c56425f0dc7e818''"
    by (simp add: evaluate_hex)
  show ?thesis
    unfolding encrypt_eq [OF stand_in_cipher_ok example_codec_fields refl refl]
      first_iv_example utf8_encode_example_request
    using c by (simp only: h [symmetric] fst_conv) simp
qed

lemma cbc_encrypt_example_request:
  "cbc_encrypt stand_in_cipher (key example_codec)
      [227, 234, 241, 248, 255, 6, 13, 20, 27, 34, 41, 48, 55, 62, 69, 76]
      ([123, 34, 109, 101, 116, 104, 111, 100, 34, 58, 34, 103, 101, 116, 34, 44,
        34, 112, 97, 116, 104, 34, 58, 34, 47, 34, 44, 34, 104, 101, 97, 100,
        101, 114, 115, 34, 58, 123, 125, 44, 34, 98, 111, 100, 121, 34, 58, 34, 34, 125]
       @ replicate 14 14) =
      [155, 210, 173, 181, 170, 148, 143, 164, 116, 90, 84, 167, 169, 168, 204, 204,
       188, 172, 221, 217, 225, 220, 226, 186, 150, 186, 193, 213, 24, 43, 18, 20,
       220, 232, 191, 19, 250, 205, 204, 202, 239, 26, 247, 1, 184, 103, 141, 162,
       1, 159, 194, 53, 19, 233, 239, 248, 28, 86, 66, 95, 13, 199, 232, 24]"
  by (simp add: key_example_codec evaluate_cbc)

lemma PapayaClient_encrypt_example_request:
  "PapayaClient_encrypt stand_in_cipher PapayaClient_example_codec
     (JSON_stringify example_request) =
   Inr (ascii ''9bd2adb5aa948fa4745a54a7a9a8ccccbcacddd9e1dce2ba96bac1d5182b1214dce8bf13facdcccaef1af701b8678da2019fc23513e9eff81c56425f0dc7e818'')"
proof -
  have h: "hex_encode [155, 210, 173, 181, 170, 148, 143, 164, 116, 90, 84, 167, 169, 168, 204, 204,
       188, 172, 221, 217, 225, 220, 226, 186, 150, 186, 193, 213, 24, 43, 18, 20,
       220, 232, 191, 19, 250, 205, 204, 202, 239, 26, 247, 1, 184, 103, 141, 162,
       1, 159, 194, 53, 19, 233, 239, 248, 28, 86, 66, 95, 13, 199, 232, 24] =
      ascii ''9bd2adb5aa948fa4745a54a7a9a8ccccbcacddd9e1dce2ba96bac1d5182b1214dce8bf13facdcccaef1af701b8678da2019fc23513e9eff81c56425f0dc7e818''"
    by (simp add: evaluate_hex)
  have l: "length [227, 234, 241, 248, 255, 6, 13, 20, 27, 34, 41, 48, 55, 62, 69, 76 :: byte] = 16"
    by simp
  show ?thesis
    unfolding PapayaClient_example_codec_def first_iv_example
      PapayaClient_encrypt_eq [OF stand_in_cipher_ok example_codec_fields(2) l refl]
      utf8_encode_example_request
    using cbc_encrypt_example_request by (simp add: h del: hex_encode.simps)
qed

lemma PapayaClient_decrypt_empty_object:
  "PapayaClient_decrypt stand_in_cipher PapayaClient_example_codec
     (utf8_encode (ascii ''9ba1100e102e304e506e708e908eb0ae'')) = Inr (jtext ''{}'')"
proof -
  have c: "cbc_encrypt stand_in_cipher (key example_codec)
      [227, 234, 241, 248, 255, 6, 13, 20, 27, 34, 41, 48, 55, 62, 69, 76]
      (123 # 125 # replicate 14 14) =
      [155, 161, 16, 14, 16, 46, 48, 78, 80, 110, 112, 142, 144, 142, 176, 174]"
    by (simp add: key_example_codec evaluate_cbc)
  have h: "hex_encode [155, 161, 16, 14, 16, 46, 48, 78, 80, 110, 112, 142, 144, 142, 176, 174] =
      ascii ''9ba1100e102e304e506e708e908eb0ae''"
    by (simp add: evaluate_hex)
  have l: "length [227, 234, 241, 248, 255, 6, 13, 20, 27, 34, 41, 48, 55, 62, 69, 76 :: byte] = 16"
    by simp
  have t: "utf8_decode [123, 125] = jtext ''{}''"
    by (simp add: utf8_decode_ascii jtext_def)
  show ?thesis
    using PapayaClient_decrypt_hex [OF stand_in_cipher_ok example_codec_fields(2) l refl,
        of "[123, 125]"]
    unfolding PapayaClient_example_codec_def first_iv_example
    by (simp add: c h t del: hex_encode.simps)
qed

text \<open>
  Three runs: the client that draws its own key; a client of \<^verbatim>\<open>PapayaClient.ts\<close> with a
  key of three bytes and an IV of one; and one with the key and the first IV of the
  example codec.
\<close>

theorem sendRequest_sequence_witness:
  "(\<exists>this'.
     sendRequest stand_in_cipher
       (example_client (utf8_encode
          (ascii ''00000000000000000000000000000000:7e871f262d343b424950575e656c737a'')))
       example_request example_rest =
       Some (Inr (JObject []), this', snd (randomBytes 16 example_rest))
     \<and> written (socket (connection this')) =
         [utf8_encode (ascii ''e3eaf1f8ff060d141b222930373e454c:9bd2adb5aa948fa4745a54a7a9a8ccccbcacddd9e1dce2ba96bac1d5182b1214dce8bf13facdcccaef1af701b8678da2019fc23513e9eff81c56425f0dc7e818'')]
     \<and> events (socket (connection this')) = [])
   \<and> PapayaClient_sendRequest stand_in_cipher
        (PNPClient_new ''localhost'' 947 [1, 2, 3] [4] (example_socket []))
        example_request =
      Some (Inl ERR_CRYPTO_INVALID_IV,
            PNPClient_new ''localhost'' 947 [1, 2, 3] [4] (example_socket []))
   \<and> (\<exists>client'.
        PapayaClient_sendRequest stand_in_cipher
          (PNPClient_new ''localhost'' 947 (key example_codec) (fst (randomBytes 16 example_rest))
             (example_socket (utf8_encode (ascii ''9ba1100e102e304e506e708e908eb0ae''))))
          example_request =
        Some (Inr (JObject []), client')
        \<and> written (socket (pc_connection client')) =
            [utf8_encode (ascii ''9bd2adb5aa948fa4745a54a7a9a8ccccbcacddd9e1dce2ba96bac1d5182b1214dce8bf13facdcccaef1af701b8678da2019fc23513e9eff81c56425f0dc7e818'')]
        \<and> events (socket (pc_connection client')) = [])"
proof -
  let ?chunk = "utf8_encode (ascii ''00000000000000000000000000000000:7e871f262d343b424950575e656c737a'')"
  let ?pchunk = "utf8_encode (ascii ''9ba1100e102e304e506e708e908eb0ae'')"
  let ?k = "key example_codec"
  let ?v = "fst (randomBytes 16 example_rest)"
  have one: "\<exists>this'.
     sendRequest stand_in_cipher (example_client ?chunk) example_request example_rest =
       Some (Inr (JObject []), this', snd (randomBytes 16 example_rest))
     \<and> written (socket (connection this')) =
         [utf8_encode (ascii ''e3eaf1f8ff060d141b222930373e454c:9bd2adb5aa948fa4745a54a7a9a8ccccbcacddd9e1dce2ba96bac1d5182b1214dce8bf13facdcccaef1af701b8678da2019fc23513e9eff81c56425f0dc7e818'')]
     \<and> events (socket (connection this')) = []"
  proof -
    from sendRequest_sequence [OF stand_in_cipher_ok example_client_def [of ?chunk] refl,
        where request = example_request and g = example_rest and k = "[]" and v = "[]"]
    obtain encrypted where
      e: "encrypt stand_in_cipher (encryption (example_client ?chunk))
            (JSON_stringify example_request) example_rest =
          (Inr encrypted, snd (randomBytes 16 example_rest))"
      and r: "\<forall>ev es. write_fault (example_socket ?chunk) = None
            \<and> events (example_socket ?chunk) = ev # es \<longrightarrow>
          (\<exists>this'.
             sendRequest stand_in_cipher (example_client ?chunk) example_request example_rest =
               Some (case ev of
                       ErrorEvent err \<Rightarrow> Inl (SocketError err)
                     | DataEvent payload \<Rightarrow>
                         (case decrypt stand_in_cipher (encryption (example_client ?chunk)) payload of
                            Inl e \<Rightarrow> Inl e
                          | Inr text \<Rightarrow> JSON_parse text),
                     this', snd (randomBytes 16 example_rest))
             \<and> written (socket (connection this')) = written (example_socket ?chunk) @ [encrypted]
             \<and> events (socket (connection this')) = es
             \<and> encryption this' = encryption (example_client ?chunk))"
      by (elim exE conjE) (rule that)
    have "encrypted = utf8_encode (ascii ''e3eaf1f8ff060d141b222930373e454c:9bd2adb5aa948fa4745a54a7a9a8ccccbcacddd9e1dce2ba96bac1d5182b1214dce8bf13facdcccaef1af701b8678da2019fc23513e9eff81c56425f0dc7e818'')"
      using e encrypt_example_request unfolding example_client_fields by simp
    moreover have "write_fault (example_socket ?chunk) = None
        \<and> events (example_socket ?chunk) = DataEvent ?chunk # []"
      by (simp add: example_socket_def)
    ultimately show ?thesis
      using r [rule_format, of "DataEvent ?chunk" "[]"]
      by (simp add: example_client_fields decrypt_empty_object JSON_parse_empty_object
          example_socket_def) blast
  qed
  have two: "PapayaClient_sendRequest stand_in_cipher
        (PNPClient_new ''localhost'' 947 [1, 2, 3] [4] (example_socket [])) example_request =
      Some (Inl ERR_CRYPTO_INVALID_IV,
            PNPClient_new ''localhost'' 947 [1, 2, 3] [4] (example_socket []))"
    using sendRequest_sequence [OF stand_in_cipher_ok example_client_def [of "[]"] refl,
        where v = "[4]" and k = "[1, 2, 3]" and request = example_request and g = example_rest]
    by (elim exE conjE) simp
  let ?client = "PNPClient_new ''localhost'' 947 ?k ?v (example_socket ?pchunk)"
  have three: "\<exists>client'.
        PapayaClient_sendRequest stand_in_cipher ?client example_request =
        Some (Inr (JObject []), client')
        \<and> written (socket (pc_connection client')) =
            [utf8_encode (ascii ''9bd2adb5aa948fa4745a54a7a9a8ccccbcacddd9e1dce2ba96bac1d5182b1214dce8bf13facdcccaef1af701b8678da2019fc23513e9eff81c56425f0dc7e818'')]
        \<and> events (socket (pc_connection client')) = []"
  proof -
    have f: "pc_encryption ?client = PapayaClient_example_codec"
      by (simp add: PNPClient_new_def PapayaClient_example_codec_def)
    have kv: "length ?k = 32 \<and> length ?v = 16"
      by (simp add: example_codec_fields length_randomBytes)
    from sendRequest_sequence [OF stand_in_cipher_ok example_client_def [of ?pchunk] refl,
        where v = ?v and k = ?k and request = example_request and g = example_rest]
    have "length ?k = 32 \<and> length ?v = 16 \<longrightarrow>
        (\<exists>text.
           PapayaClient_encrypt stand_in_cipher (pc_encryption ?client)
             (JSON_stringify example_request) = Inr text
           \<and> (\<forall>err. write_fault (example_socket ?pchunk) = Some err \<longrightarrow>
                 PapayaClient_sendRequest stand_in_cipher ?client example_request =
                   Some (Inl JS_undefined, ?client))
           \<and> (write_fault (example_socket ?pchunk) = None \<and> events (example_socket ?pchunk) = [] \<longrightarrow>
                 PapayaClient_sendRequest stand_in_cipher ?client example_request = None)
           \<and> (\<forall>ev es. write_fault (example_socket ?pchunk) = None
                   \<and> events (example_socket ?pchunk) = ev # es \<longrightarrow>
                 (\<exists>client'.
                    PapayaClient_sendRequest stand_in_cipher ?client example_request =
                      Some (case ev of
                              ErrorEvent err \<Rightarrow> Inl (SocketError err)
                            | DataEvent payload \<Rightarrow>
                                (case PapayaClient_decrypt stand_in_cipher (pc_encryption ?client) payload of
                                   Inl e \<Rightarrow> Inl e
                                 | Inr text \<Rightarrow> JSON_parse text),
                            client')
                    \<and> written (socket (pc_connection client')) =
                        written (example_socket ?pchunk) @ [utf8_encode text]
                    \<and> events (socket (pc_connection client')) = es
                    \<and> pc_encryption client' = pc_encryption ?client)))"
      by (elim exE conjE)
    from this [rule_format, OF kv]
    obtain enc where
      t: "PapayaClient_encrypt stand_in_cipher (pc_encryption ?client)
            (JSON_stringify example_request) = Inr enc"
      and r: "\<forall>ev es. write_fault (example_socket ?pchunk) = None
            \<and> events (example_socket ?pchunk) = ev # es \<longrightarrow>
          (\<exists>client'.
             PapayaClient_sendRequest stand_in_cipher ?client example_request =
               Some (case ev of
                       ErrorEvent err \<Rightarrow> Inl (SocketError err)
                     | DataEvent payload \<Rightarrow>
                         (case PapayaClient_decrypt stand_in_cipher (pc_encryption ?client) payload of
                            Inl e \<Rightarrow> Inl e
                          | Inr text \<Rightarrow> JSON_parse text),
                     client')
             \<and> written (socket (pc_connection client')) =
                 written (example_socket ?pchunk) @ [utf8_encode enc]
             \<and> events (socket (pc_connection client')) = es
             \<and> pc_encryption client' = pc_encryption ?client)"
      by (elim exE conjE) (rule that)
    have "enc = ascii ''9bd2adb5aa948fa4745a54a7a9a8ccccbcacddd9e1dce2ba96bac1d5182b1214dce8bf13facdcccaef1af701b8678da2019fc23513e9eff81c56425f0dc7e818''"
      using t PapayaClient_encrypt_example_request unfolding f by simp
    moreover have "write_fault (example_socket ?pchunk) = None
        \<and> events (example_socket ?pchunk) = DataEvent ?pchunk # []"
      by (simp add: example_socket_def)
    ultimately show ?thesis
      using r [rule_format, of "DataEvent ?pchunk" "[]"]
      unfolding f
      by (simp add: PapayaClient_decrypt_empty_object JSON_parse_empty_object
          example_socket_def) blast
  qed
  from two three have "PapayaClient_sendRequest stand_in_cipher
        (PNPClient_new ''localhost'' 947 [1, 2, 3] [4] (example_socket []))
        example_request =
      Some (Inl ERR_CRYPTO_INVALID_IV,
            PNPClient_new ''localhost'' 947 [1, 2, 3] [4] (example_socket []))
   \<and> (\<exists>client'.
        PapayaClient_sendRequest stand_in_cipher ?client example_request =
        Some (Inr (JObject []), client')
        \<and> written (socket (pc_connection client')) =
            [utf8_encode (ascii ''9bd2adb5aa948fa4745a54a7a9a8ccccbcacddd9e1dce2ba96bac1d5182b1214dce8bf13facdcccaef1af701b8678da2019fc23513e9eff81c56425f0dc7e818'')]
        \<and> events (socket (pc_connection client')) = [])"
    by (rule conjI)
  with one show ?thesis
    by (rule conjI)
qed

text \<open>A request whose properties are not in the order method, path, headers, body.\<close>

theorem JSON_stringify_property_order_counterexample:
  "is_PNPRequest
     (JObject [(ascii ''path'', JString (ascii ''/'')), (ascii ''method'', JString (ascii ''get'')),
               (ascii ''headers'', JObject []), (ascii ''body'', JString [])])
   \<and> JSON_stringify
     (JObject [(ascii ''path'', JString (ascii ''/'')), (ascii ''method'', JString (ascii ''get'')),
               (ascii ''headers'', JObject []), (ascii ''body'', JString [])]) =
     jtext ''{`path`:`/`,`method`:`get`,`headers`:{},`body`:``}''"
  by (auto simp: is_PNPRequest_def is_JString_def is_headers_def QuoteJSONString_def
      escape_unit_def jtext_def ascii_def is_surrogate_def is_high_surrogate_def)

section \<open>The key of a codec\<close>

lemma sendRequest_encryption:
  "sendRequest A this request g = Some (r, this', g') \<Longrightarrow> encryption this' = encryption this"
  by (auto simp: sendRequest_def send_def receive_def Let_def
      split: prod.splits list.splits socket_event.splits sum.splits option.splits)

lemma PapayaClient_sendRequest_encryption:
  "PapayaClient_sendRequest A this request = Some (r, this') \<Longrightarrow>
   pc_encryption this' = pc_encryption this"
  by (auto simp: PapayaClient_sendRequest_def PapayaClient_send_def receive_def Let_def
      split: prod.splits list.splits socket_event.splits sum.splits option.splits)

text \<open>The outcome of \<open>decrypt\<close> of \<^verbatim>\<open>PapayaClient.ts\<close> on any payload.\<close>

lemma PapayaClient_decrypt_cases:
  assumes ok: "aes256_ok A"
    and tx: "text = utf8_decode payload"
    and ct: "ct = hex_decode text"
    and pt: "pt = cbc_decrypt A k v ct"
    and n: "n = unat (last pt)"
  shows "PapayaClient_decrypt A (PapayaClient_PNPEncryption_new k v) payload =
     (if length v \<noteq> 16 then Inl ERR_CRYPTO_INVALID_IV
      else if length k \<noteq> 32 then Inl ERR_CRYPTO_INVALID_KEYLEN
      else if odd (length text) then Inl ERR_INVALID_ARG_VALUE
      else if ct = [] \<or> length ct mod 16 \<noteq> 0 then Inl ERR_OSSL_WRONG_FINAL_BLOCK_LENGTH
      else if n = 0 \<or> 16 < n \<or> \<not> list_all (\<lambda>b. unat b = n) (drop (length pt - n) pt)
      then Inl ERR_OSSL_BAD_DECRYPT
      else Inr (utf8_decode (take (length pt - n) pt)))"
proof (cases "length k = 32 \<and> length v = 16")
  case False
  then show ?thesis
    by (auto simp: PapayaClient_decrypt_def PapayaClient_PNPEncryption_new_def
        createDecipheriv_def createCipheriv_def)
next
  case True
  then have k: "length k = 32" and v: "length v = 16"
    by simp_all
  let ?c = "\<lparr>cipher_key = k, chain = v, pending = []\<rparr>"
  have d: "PapayaClient_decrypt A (PapayaClient_PNPEncryption_new k v) payload =
      (if odd (length text) then Inl ERR_INVALID_ARG_VALUE
       else (case Decipher_final A (snd (Decipher_update A ?c ct)) of
               Inl e \<Rightarrow> Inl e
             | Inr fin \<Rightarrow> Inr (utf8_decode (fst (Decipher_update A ?c ct) @ fin))))"
    unfolding PapayaClient_decrypt_def PapayaClient_PNPEncryption_new_def createDecipheriv_def
    by (simp add: createCipheriv_ok [OF k v] tx ct Let_def case_prod_beta split: sum.splits)
  show ?thesis
  proof (cases "odd (length text)")
    case True
    then show ?thesis
      unfolding d using k v by simp
  next
    case even: False
    show ?thesis
    proof (cases "ct = [] \<or> length ct mod 16 \<noteq> 0")
      case True
      then show ?thesis
        unfolding d using k v even by (simp add: Decipher_wrong_length)
    next
      case False
      then have ne: "ct \<noteq> []" and md: "length ct mod 16 = 0"
        by simp_all
      show ?thesis
        unfolding d using Decipher_whole_blocks [OF ok k v ne md refl pt n] k v even False
        by (auto split: sum.splits if_splits)
    qed
  qed
qed

text \<open>
  Claim C7, as the two codecs have it. The constructor of the codec that draws its own
  key takes no key: it draws the next 32 bytes of the entropy source. \<open>encrypt\<close>
  encrypts under that key and \<open>decrypt\<close> decrypts under it, and the client has the same
  codec, so the same key, after every \<open>sendRequest\<close>. The codec of \<^verbatim>\<open>PapayaClient.ts\<close>
  keeps the key that its constructor was given, of whatever length. When the IV has 16
  bytes and the key 32, its \<open>encrypt\<close> encrypts under that key and its \<open>decrypt\<close>
  decrypts under it; otherwise both throw. Its client too has the same codec after every
  \<open>sendRequest\<close>.
\<close>

theorem codec_key_lifetime:
  assumes "aes256_ok A" and "this = fst (PNP_new h p mode sock g0)"
  shows "key (encryption this) = map (pool g0) [drawn g0 ..< drawn g0 + 32]
     \<and> length (key (encryption this)) = 32
     \<and> (let iv = fst (randomBytes 16 g); d = utf8_encode x; n = 16 - length d mod 16
        in fst (encrypt A (encryption this) x g) =
             Inr (utf8_encode (hex_encode iv @ [colon]
                    @ hex_encode (cbc_encrypt A (key (encryption this)) iv
                        (d @ replicate n (of_nat n))))))
     \<and> (let iv = hex_decode (takeWhile (\<lambda>c. c \<noteq> colon) (utf8_decode payload));
            ct = hex_decode (tl (dropWhile (\<lambda>c. c \<noteq> colon) (utf8_decode payload)));
            pt = cbc_decrypt A (key (encryption this)) iv ct;
            n = unat (last pt)
        in decrypt A (encryption this) payload =
             (if length iv \<noteq> 16 then Inl ERR_CRYPTO_INVALID_IV
              else if ct = [] \<or> length ct mod 16 \<noteq> 0 then Inl ERR_OSSL_WRONG_FINAL_BLOCK_LENGTH
              else if n = 0 \<or> 16 < n \<or> \<not> list_all (\<lambda>b. unat b = n) (drop (length pt - n) pt)
              then Inl ERR_OSSL_BAD_DECRYPT
              else Inr (utf8_decode (take (length pt - n) pt))))
     \<and> (\<forall>request g r this' g'.
           sendRequest A this request g = Some (r, this', g') \<longrightarrow>
           encryption this' = encryption this)
     \<and> pc_key (PapayaClient_PNPEncryption_new k v) = k
     \<and> (let d = utf8_encode x; n = 16 - length d mod 16
        in PapayaClient_encrypt A (PapayaClient_PNPEncryption_new k v) x =
             (if length v \<noteq> 16 then Inl ERR_CRYPTO_INVALID_IV
              else if length k \<noteq> 32 then Inl ERR_CRYPTO_INVALID_KEYLEN
              else Inr (hex_encode (cbc_encrypt A k v (d @ replicate n (of_nat n))))))
     \<and> (let text = utf8_decode payload;
            ct = hex_decode text;
            pt = cbc_decrypt A k v ct;
            n = unat (last pt)
        in PapayaClient_decrypt A (PapayaClient_PNPEncryption_new k v) payload =
             (if length v \<noteq> 16 then Inl ERR_CRYPTO_INVALID_IV
              else if length k \<noteq> 32 then Inl ERR_CRYPTO_INVALID_KEYLEN
              else if odd (length text) then Inl ERR_INVALID_ARG_VALUE
              else if ct = [] \<or> length ct mod 16 \<noteq> 0 then Inl ERR_OSSL_WRONG_FINAL_BLOCK_LENGTH
              else if n = 0 \<or> 16 < n \<or> \<not> list_all (\<lambda>b. unat b = n) (drop (length pt - n) pt)
              then Inl ERR_OSSL_BAD_DECRYPT
              else Inr (utf8_decode (take (length pt - n) pt))))
     \<and> (\<forall>client request r client'.
           PapayaClient_sendRequest A client request = Some (r, client') \<longrightarrow>
           pc_encryption client' = pc_encryption client)"
proof -
  have alg: "algorithm (encryption this) = ''aes-256-cbc''"
    and kl: "length (key (encryption this)) = 32"
    unfolding assms(2) PNP_new_fields by (rule PNPEncryption_new_fields)+
  have "key (encryption this) = map (pool g0) [drawn g0 ..< drawn g0 + 32]"
    unfolding assms(2) PNP_new_fields PNPEncryption_new_fields by (simp add: randomBytes_def)
  moreover note kl
  moreover have "let iv = fst (randomBytes 16 g); d = utf8_encode x; n = 16 - length d mod 16
      in fst (encrypt A (encryption this) x g) =
           Inr (utf8_encode (hex_encode iv @ [colon]
                  @ hex_encode (cbc_encrypt A (key (encryption this)) iv
                      (d @ replicate n (of_nat n)))))"
    unfolding Let_def encrypt_eq [OF assms(1) alg kl refl refl] by simp
  moreover have "let iv = hex_decode (takeWhile (\<lambda>c. c \<noteq> colon) (utf8_decode payload));
        ct = hex_decode (tl (dropWhile (\<lambda>c. c \<noteq> colon) (utf8_decode payload)));
        pt = cbc_decrypt A (key (encryption this)) iv ct;
        n = unat (last pt)
      in decrypt A (encryption this) payload =
           (if length iv \<noteq> 16 then Inl ERR_CRYPTO_INVALID_IV
            else if ct = [] \<or> length ct mod 16 \<noteq> 0 then Inl ERR_OSSL_WRONG_FINAL_BLOCK_LENGTH
            else if n = 0 \<or> 16 < n \<or> \<not> list_all (\<lambda>b. unat b = n) (drop (length pt - n) pt)
            then Inl ERR_OSSL_BAD_DECRYPT
            else Inr (utf8_decode (take (length pt - n) pt)))"
    unfolding Let_def by (rule decrypt_cases [OF assms(1) alg kl refl refl refl refl])
  moreover have "pc_key (PapayaClient_PNPEncryption_new k v) = k"
    by (simp add: PapayaClient_PNPEncryption_new_def)
  moreover have "let d = utf8_encode x; n = 16 - length d mod 16
      in PapayaClient_encrypt A (PapayaClient_PNPEncryption_new k v) x =
           (if length v \<noteq> 16 then Inl ERR_CRYPTO_INVALID_IV
            else if length k \<noteq> 32 then Inl ERR_CRYPTO_INVALID_KEYLEN
            else Inr (hex_encode (cbc_encrypt A k v (d @ replicate n (of_nat n)))))"
    unfolding Let_def by (rule PapayaClient_encrypt_cases [OF assms(1) refl])
  moreover have "let text = utf8_decode payload;
        ct = hex_decode text;
        pt = cbc_decrypt A k v ct;
        n = unat (last pt)
      in PapayaClient_decrypt A (PapayaClient_PNPEncryption_new k v) payload =
           (if length v \<noteq> 16 then Inl ERR_CRYPTO_INVALID_IV
            else if length k \<noteq> 32 then Inl ERR_CRYPTO_INVALID_KEYLEN
            else if odd (length text) then Inl ERR_INVALID_ARG_VALUE
            else if ct = [] \<or> length ct mod 16 \<noteq> 0 then Inl ERR_OSSL_WRONG_FINAL_BLOCK_LENGTH
            else if n = 0 \<or> 16 < n \<or> \<not> list_all (\<lambda>b. unat b = n) (drop (length pt - n) pt)
            then Inl ERR_OSSL_BAD_DECRYPT
            else Inr (utf8_decode (take (length pt - n) pt)))"
    unfolding Let_def by (rule PapayaClient_decrypt_cases [OF assms(1) refl refl refl refl])
  ultimately show ?thesis
    using sendRequest_encryption PapayaClient_sendRequest_encryption by blast
qed


text \<open>
  The key of the example client; a message encrypted and a chunk decrypted under it; a
  call of \<open>sendRequest\<close> that decrypts the chunk, after which the key is the same; and
  the codec of \<^verbatim>\<open>PapayaClient.ts\<close> with the same key.
\<close>

theorem codec_key_lifetime_witness:
  "key (encryption (example_client (utf8_encode
       (ascii ''00000000000000000000000000000000:7e871f262d343b424950575e656c737a'')))) =
     [3, 10, 17, 24, 31, 38, 45, 52, 59, 66, 73, 80, 87, 94, 101, 108, 115,
      122, 129, 136, 143, 150, 157, 164, 171, 178, 185, 192, 199, 206, 213, 220]
   \<and> fst (encrypt stand_in_cipher
        (encryption (example_client (utf8_encode
           (ascii ''00000000000000000000000000000000:7e871f262d343b424950575e656c737a''))))
        (ascii ''hi'') example_rest) =
     Inr (utf8_encode
       (ascii ''e3eaf1f8ff060d141b222930373e454c:8e8d100e102e304e506e708e908eb0ae''))
   \<and> decrypt stand_in_cipher
        (encryption (example_client (utf8_encode
           (ascii ''00000000000000000000000000000000:7e871f262d343b424950575e656c737a''))))
        (utf8_encode (ascii ''00000000000000000000000000000000:7e871f262d343b424950575e656c737a'')) =
     Inr (jtext ''{}'')
   \<and> (\<exists>this' g'.
        sendRequest stand_in_cipher
          (example_client (utf8_encode
             (ascii ''00000000000000000000000000000000:7e871f262d343b424950575e656c737a'')))
          example_request example_rest =
          Some (Inr (JObject []), this', g')
        \<and> key (encryption this') =
            [3, 10, 17, 24, 31, 38, 45, 52, 59, 66, 73, 80, 87, 94, 101, 108, 115,
             122, 129, 136, 143, 150, 157, 164, 171, 178, 185, 192, 199, 206, 213, 220])
   \<and> PapayaClient_encrypt stand_in_cipher PapayaClient_example_codec (ascii ''hi'') =
       Inr (ascii ''8e8d100e102e304e506e708e908eb0ae'')
   \<and> PapayaClient_decrypt stand_in_cipher PapayaClient_example_codec
        (utf8_encode (ascii ''8e8d100e102e304e506e708e908eb0ae'')) =
       Inr (ascii ''hi'')"
proof -
  let ?s = "''00000000000000000000000000000000:7e871f262d343b424950575e656c737a''"
  let ?chunk = "utf8_encode (ascii ?s)"
  let ?q = "''8e8d100e102e304e506e708e908eb0ae''"
  let ?iv = "[227, 234, 241, 248, 255, 6, 13, 20, 27, 34, 41, 48, 55, 62, 69, 76] :: Buffer"
  let ?ct = "[142, 141, 16, 14, 16, 46, 48, 78, 80, 110, 112, 142, 144, 142, 176, 174] :: Buffer"
  note t = codec_key_lifetime [OF stand_in_cipher_ok example_client_def [of ?chunk],
      where x = "ascii ''hi''" and g = example_rest and payload = ?chunk
        and k = "key example_codec" and v = "fst (randomBytes 16 example_rest)"]
  note u = codec_key_lifetime [OF stand_in_cipher_ok example_client_def [of ?chunk],
      where payload = "utf8_encode (ascii ?q)"
        and k = "key example_codec" and v = "fst (randomBytes 16 example_rest)"]
  have enc: "encryption (example_client ?chunk) = example_codec"
    by (rule example_client_fields)
  have d: "utf8_encode (ascii ''hi'') = [104, 105]"
    by (simp add: utf8_encode_ascii ascii_def)
  have hi: "utf8_decode [104, 105] = ascii ''hi''"
    by (simp add: utf8_decode_ascii ascii_def)
  have c: "cbc_encrypt stand_in_cipher (key example_codec) ?iv ([104, 105] @ replicate 14 14) = ?ct"
    by (simp add: key_example_codec evaluate_cbc)
  have p: "cbc_decrypt stand_in_cipher (key example_codec) ?iv ?ct =
      [104, 105, 14, 14, 14, 14, 14, 14, 14, 14, 14, 14, 14, 14, 14, 14]"
    by (simp add: key_example_codec evaluate_cbc)
  have a: "key (encryption (example_client ?chunk)) =
     [3, 10, 17, 24, 31, 38, 45, 52, 59, 66, 73, 80, 87, 94, 101, 108, 115,
      122, 129, 136, 143, 150, 157, 164, 171, 178, 185, 192, 199, 206, 213, 220]"
    using t [THEN conjunct1] by (simp add: example_entropy_def upt_rec)
  have h: "hex_encode ?iv @ [colon] @ hex_encode ?ct =
      ascii ''e3eaf1f8ff060d141b222930373e454c:8e8d100e102e304e506e708e908eb0ae''"
    by (simp add: evaluate_hex)
  have b: "fst (encrypt stand_in_cipher (encryption (example_client ?chunk))
        (ascii ''hi'') example_rest) =
     Inr (utf8_encode
       (ascii ''e3eaf1f8ff060d141b222930373e454c:8e8d100e102e304e506e708e908eb0ae''))"
    using t [THEN conjunct2, THEN conjunct2, THEN conjunct1] c
    unfolding Let_def enc first_iv_example d by (simp only: h [symmetric]) simp
  have tx: "utf8_decode ?chunk = ascii ?s"
    by (rule utf8_decode_encode_literal) simp
  have iv0: "hex_decode (takeWhile (\<lambda>c. c \<noteq> colon) (ascii ?s)) = replicate 16 0"
    by (simp add: evaluate_hex replicate_numeral)
  have ct0: "hex_decode (tl (dropWhile (\<lambda>c. c \<noteq> colon) (ascii ?s))) =
      [126, 135, 31, 38, 45, 52, 59, 66, 73, 80, 87, 94, 101, 108, 115, 122]"
    by (simp add: evaluate_hex)
  have pt0: "cbc_decrypt stand_in_cipher (key example_codec) (replicate 16 0)
      [126, 135, 31, 38, 45, 52, 59, 66, 73, 80, 87, 94, 101, 108, 115, 122] =
      [123, 125, 14, 14, 14, 14, 14, 14, 14, 14, 14, 14, 14, 14, 14, 14]"
    by (simp add: key_example_codec evaluate_cbc)
  have obj: "utf8_decode [123, 125] = jtext ''{}''"
    by (simp add: utf8_decode_ascii jtext_def)
  have dec: "decrypt stand_in_cipher (encryption (example_client ?chunk)) ?chunk =
      Inr (jtext ''{}'')"
    using t [THEN conjunct2, THEN conjunct2, THEN conjunct2, THEN conjunct1]
    unfolding Let_def enc tx iv0 ct0 pt0 by (simp add: obj)
  obtain encrypted where e: "encrypt stand_in_cipher (encryption (example_client ?chunk))
      (JSON_stringify example_request) example_rest =
      (Inr encrypted, snd (randomBytes 16 example_rest))"
    unfolding enc using encrypt_returns [OF stand_in_cipher_ok example_codec_fields] by blast
  have "write_fault (socket (connection (example_client ?chunk))) = None"
    by (simp add: example_client_fields example_socket_def)
  from sendRequest_run [OF e this]
  obtain this' g' where
    s: "sendRequest stand_in_cipher (example_client ?chunk) example_request example_rest =
      Some (Inr (JObject []), this', g')"
    using dec by (simp add: example_client_fields(2) example_socket_def JSON_parse_empty_object)
  with t have "encryption this' = encryption (example_client ?chunk)"
    by blast
  with s a have run: "\<exists>this' g'.
        sendRequest stand_in_cipher (example_client ?chunk) example_request example_rest =
          Some (Inr (JObject []), this', g')
        \<and> key (encryption this') =
            [3, 10, 17, 24, 31, 38, 45, 52, 59, 66, 73, 80, 87, 94, 101, 108, 115,
             122, 129, 136, 143, 150, 157, 164, 171, 178, 185, 192, 199, 206, 213, 220]"
    by auto
  have l: "length (key example_codec) = 32" "length ?iv = 16"
    by (simp_all add: example_codec_fields)
  have hq: "hex_encode ?ct = ascii ?q"
    by (simp add: evaluate_hex)
  have pe: "PapayaClient_encrypt stand_in_cipher PapayaClient_example_codec (ascii ''hi'') =
       Inr (ascii ?q)"
    using t [THEN conjunct2, THEN conjunct2, THEN conjunct2, THEN conjunct2, THEN conjunct2,
        THEN conjunct2, THEN conjunct1] c l
    unfolding Let_def PapayaClient_example_codec_def first_iv_example d
    by (simp add: hq del: hex_encode.simps)
  have tq: "utf8_decode (utf8_encode (ascii ?q)) = ascii ?q"
    by (rule utf8_decode_encode_literal) simp
  have cq: "hex_decode (ascii ?q) = ?ct"
    by (simp add: evaluate_hex)
  have ev: "even (length (ascii ?q))"
    by (simp add: ascii_def)
  have pd: "PapayaClient_decrypt stand_in_cipher PapayaClient_example_codec
        (utf8_encode (ascii ?q)) = Inr (ascii ''hi'')"
    using u [THEN conjunct2, THEN conjunct2, THEN conjunct2, THEN conjunct2, THEN conjunct2,
        THEN conjunct2, THEN conjunct2, THEN conjunct1] l ev
    unfolding Let_def PapayaClient_example_codec_def first_iv_example tq cq p
    by (simp add: hi)
  from a b dec run pe pd show ?thesis
    by blast
qed

text \<open>A codec of \<^verbatim>\<open>PapayaClient.ts\<close> with a key of three bytes, given by its caller.\<close>

theorem PapayaClient_key_given_counterexample:
  "pc_key (PapayaClient_PNPEncryption_new [1, 2, 3] [4]) = [1, 2, 3]
   \<and> length (pc_key (PapayaClient_PNPEncryption_new [1, 2, 3] [4])) \<noteq> 32"
  by (simp add: PapayaClient_PNPEncryption_new_def)

end
